theory Spec2Isabelle
  imports Complex_Main
begin

section \<open>Monte Carlo approximations to Shapley data values\<close>

text \<open>
  A shallow embedding of \<^verbatim>\<open>pydvl/value/shapley/montecarlo.py\<close>.

  Conventions of the embedding.
  \<^item> Items are the natural numbers below \<open>n = len(u.data)\<close>; \<open>u.data.indices\<close> is
    \<open>[0..<n]\<close>.
  \<^item> The utility is a function from sets of items to numbers; Python floats are
    modelled as real numbers (rounding is not modelled). The values that numpy
    produces where no real number exists (a division by zero, the mean of an empty
    array) are the constructors of \<open>npfloat\<close>, and the OverflowError that Python
    raises on a number beyond the range of floats is a result of the model.
  \<^item> Every \<^verbatim>\<open>raise\<close> of the source is an \<open>Inl\<close> result.
  \<^item> Random draws are inputs: a worker gets a tape, a function giving the outcome of
    its \<open>k\<close>-th call of the sampler.
\<close>

subsection \<open>Data\<close>

type_synonym utility = "nat set \<Rightarrow> real"

datatype error = ValueError | ZeroDivisionError | IndexError | TypeError | OverflowError

datatype npfloat = Finite real | PosInf | NegInf | NaN

text \<open>\<^verbatim>\<open>class MonteCarloResults(NamedTuple)\<close>: values, stderr, n_samples (optional).\<close>

record 'v MonteCarloResults =
  mc_values :: "'v list"
  mc_stderr :: "'v list"
  mc_n_samples :: "int option"

subsection \<open>The range of Python floats\<close>

text \<open>
  A real number of the magnitude of the threshold, which lies half a unit in the last
  place above the largest double, rounds to no finite double (to nearest, ties to even).
  Python raises OverflowError where such a number would be the result of converting an
  integer to a float, of the true division of two integers, or of a power of a float.
  (The arithmetic of numpy arrays raises nothing there: it gives an infinity.)
\<close>

definition float_overflow_threshold :: real where
  "float_overflow_threshold = 2 ^ 1024 - 2 ^ 970"

definition float_overflow :: "real \<Rightarrow> bool" where
  "float_overflow x \<longleftrightarrow> float_overflow_threshold \<le> \<bar>x\<bar>"

subsection \<open>numpy operations used by the module\<close>

text \<open>Division of a float by a float, as numpy does it: no exception, a division by
  zero gives an infinity or nan.\<close>

fun np_true_divide :: "npfloat \<Rightarrow> real \<Rightarrow> npfloat" where
  "np_true_divide (Finite x) d =
     (if d = 0 then (if x = 0 then NaN else if 0 < x then PosInf else NegInf)
      else Finite (x / d))"
| "np_true_divide PosInf d = (if d < 0 then NegInf else PosInf)"
| "np_true_divide NegInf d = (if d < 0 then PosInf else NegInf)"
| "np_true_divide NaN d = NaN"

text \<open>\<^verbatim>\<open>np.mean\<close> and \<^verbatim>\<open>np.std\<close> (population standard deviation, \<open>ddof = 0\<close>) of a
  one-dimensional array; both are nan on an empty array.\<close>

definition mean :: "real list \<Rightarrow> real" where
  "mean xs = sum_list xs / real (length xs)"

definition np_mean :: "real list \<Rightarrow> npfloat" where
  "np_mean xs = (if xs = [] then NaN else Finite (mean xs))"

definition np_std :: "real list \<Rightarrow> npfloat" where
  "np_std xs =
     (if xs = [] then NaN
      else Finite (sqrt (mean (map (\<lambda>x. \<bar>x - mean xs\<bar> ^ 2) xs))))"

text \<open>Column \<open>j\<close> of a matrix given as the list of its rows.\<close>

definition column :: "real list list \<Rightarrow> nat \<Rightarrow> real list" where
  "column m j = map (\<lambda>row. row ! j) m"

text \<open>\<^verbatim>\<open>np.concatenate(arrays, axis=0)\<close>: the rows of all matrices, in order; an empty
  sequence of arrays is a ValueError. (All matrices here have \<open>n\<close> columns.)\<close>

definition np_concatenate :: "real list list list \<Rightarrow> error + real list list" where
  "np_concatenate ms = (if ms = [] then Inl ValueError else Inr (concat ms))"

text \<open>\<^verbatim>\<open>values += val\<close> on one-dimensional arrays: element-wise when the shapes agree,
  broadcast when \<open>val\<close> has one element, a ValueError otherwise.\<close>

definition np_iadd :: "real list \<Rightarrow> real list \<Rightarrow> error + real list" where
  "np_iadd vs val =
     (if length val = length vs then Inr (map2 (+) vs val)
      else if length val = 1 then Inr (map (\<lambda>x. x + val ! 0) vs)
      else Inl ValueError)"

subsection \<open>The map-reduce job\<close>

text \<open>The first error of a list of results, or all the values.\<close>

fun collect :: "(error + 'b) list \<Rightarrow> error + 'b list" where
  "collect [] = Inr []"
| "collect (r # rs) =
     (case r of Inl e \<Rightarrow> Inl e
      | Inr x \<Rightarrow> (case collect rs of Inl e \<Rightarrow> Inl e | Inr xs \<Rightarrow> Inr (x # xs)))"

text \<open>
  Modelled from the spec: \<^verbatim>\<open>MapReduceJob\<close> of \<^verbatim>\<open>pydvl.utils.parallel\<close>, which is not
  among the sources. The spec (4.4): the mapping function is executed once per worker on
  the worker's assigned input, the sequence of per-worker outputs is passed to the
  reduction function, and a worker failure is a failure of the job. The assigned inputs
  are the argument \<open>inputs\<close>, one per worker: the whole input for each worker when the
  input is replicated, one chunk per worker when it is chunked. The worker's number is
  passed to the mapping function (it selects the worker's random tape).
\<close>

definition map_reduce_job ::
  "(nat \<Rightarrow> 'a \<Rightarrow> error + 'b) \<Rightarrow> ('b list \<Rightarrow> error + 'c) \<Rightarrow> 'a list \<Rightarrow> error + 'c" where
  "map_reduce_job map_func reduce_func inputs =
     (case collect (map (\<lambda>job. map_func job (inputs ! job)) [0..<length inputs]) of
        Inl e \<Rightarrow> Inl e
      | Inr outs \<Rightarrow> reduce_func outs)"

subsection \<open>The permutation estimator\<close>

text \<open>
  The inner loop of \<^verbatim>\<open>_permutation_montecarlo_marginals\<close>:
  \<^verbatim>\<open>for i, idx in enumerate(permutation)\<close>. \<open>seen\<close> is \<^verbatim>\<open>permutation[:i]\<close>,
  so that \<open>seen @ [idx]\<close> is \<^verbatim>\<open>permutation[: i + 1]\<close>.
\<close>

fun marginals_loop ::
  "utility \<Rightarrow> nat list \<Rightarrow> nat list \<Rightarrow> real \<Rightarrow> real list \<Rightarrow> error + real list" where
  "marginals_loop u seen [] prev_score marginals = Inr marginals"
| "marginals_loop u seen (idx # rest) prev_score marginals =
     (let score = u (set (seen @ [idx]))
      in if length marginals \<le> idx then Inl IndexError
         else marginals_loop u (seen @ [idx]) rest score
                (marginals[idx := score - prev_score]))"

text \<open>One iteration of the outer loop: \<^verbatim>\<open>prev_score = 0.0\<close>,
  \<^verbatim>\<open>marginals = np.zeros(shape=n)\<close>, then the inner loop over the sampled permutation.\<close>

definition marginals_row :: "utility \<Rightarrow> nat \<Rightarrow> nat list \<Rightarrow> error + real list" where
  "marginals_row u n permutation = marginals_loop u [] permutation 0 (replicate n 0)"

text \<open>The outer loop \<^verbatim>\<open>for iter_idx in pbar\<close>; \<open>random_permutation iter_idx\<close> is the
  outcome of \<^verbatim>\<open>np.random.permutation(u.data.indices)\<close> in that iteration.\<close>

fun marginals_rows ::
  "utility \<Rightarrow> nat \<Rightarrow> (nat \<Rightarrow> nat list) \<Rightarrow> nat list \<Rightarrow> error + real list list" where
  "marginals_rows u n random_permutation [] = Inr []"
| "marginals_rows u n random_permutation (iter_idx # its) =
     (case marginals_row u n (random_permutation iter_idx) of
        Inl e \<Rightarrow> Inl e
      | Inr row \<Rightarrow>
          (case marginals_rows u n random_permutation its of
             Inl e \<Rightarrow> Inl e
           | Inr rows \<Rightarrow> Inr (row # rows)))"

text \<open>\<^verbatim>\<open>_permutation_montecarlo_marginals\<close>. \<^verbatim>\<open>np.zeros\<close> refuses a negative
  dimension.\<close>

definition permutation_montecarlo_marginals ::
  "utility \<Rightarrow> nat \<Rightarrow> int \<Rightarrow> (nat \<Rightarrow> nat list) \<Rightarrow> error + real list list" where
  "permutation_montecarlo_marginals u n max_permutations random_permutation =
     (if max_permutations < 0 then Inl ValueError
      else marginals_rows u n random_permutation [0..<nat max_permutations])"

text \<open>The reduction at the end of \<^verbatim>\<open>permutation_montecarlo_shapley\<close>:
  \<^verbatim>\<open>acc = np.mean(full_results, axis=0)\<close> and
  \<^verbatim>\<open>acc_std = np.std(full_results, axis=0) / np.sqrt(full_results.shape[0])\<close>.\<close>

definition permutation_estimate ::
  "nat \<Rightarrow> real list list \<Rightarrow> npfloat list \<times> npfloat list" where
  "permutation_estimate n full_results =
     (let acc = map (\<lambda>j. np_mean (column full_results j)) [0..<n];
          acc_std = map (\<lambda>j. np_true_divide (np_std (column full_results j))
                                (sqrt (real (length full_results)))) [0..<n]
      in (acc, acc_std))"

text \<open>\<^verbatim>\<open>full_results\<close> of \<^verbatim>\<open>permutation_montecarlo_shapley\<close>: the job with
  \<^verbatim>\<open>chunkify_inputs=False\<close> hands the utility to each of the \<open>n_jobs\<close> workers.
  \<^verbatim>\<open>max_iterations // n_jobs\<close> raises for \<open>n_jobs = 0\<close>.\<close>

definition permutation_full_results ::
  "utility \<Rightarrow> nat \<Rightarrow> int \<Rightarrow> nat \<Rightarrow> (nat \<Rightarrow> nat \<Rightarrow> nat list) \<Rightarrow> error + real list list" where
  "permutation_full_results u n max_iterations n_jobs random_permutation =
     (if n_jobs = 0 then Inl ZeroDivisionError
      else
        let iterations_per_job = max 1 (max_iterations div int n_jobs)
        in map_reduce_job
             (\<lambda>job u_id. permutation_montecarlo_marginals u_id n iterations_per_job
                            (random_permutation job))
             np_concatenate (replicate n_jobs u))"

text \<open>\<^verbatim>\<open>permutation_montecarlo_shapley\<close>, up to the naming and sorting of the result:
  the pair of the values and the standard errors, by item.\<close>

definition permutation_montecarlo_shapley ::
  "utility \<Rightarrow> nat \<Rightarrow> int \<Rightarrow> nat \<Rightarrow> (nat \<Rightarrow> nat \<Rightarrow> nat list)
     \<Rightarrow> error + npfloat list \<times> npfloat list" where
  "permutation_montecarlo_shapley u n max_iterations n_jobs random_permutation =
     (case permutation_full_results u n max_iterations n_jobs random_permutation of
        Inl e \<Rightarrow> Inl e
      | Inr full_results \<Rightarrow> Inr (permutation_estimate n full_results))"

subsection \<open>The combinatorial estimator\<close>

text \<open>
  What a worker does besides computing: it draws subsets from the sampler and calls the
  utility. The trace lists these events in the order of the run.
\<close>

datatype event = Sampled "nat set" | OracleCall "nat set"

text \<open>The three arrays of the worker, \<^verbatim>\<open>values\<close>, \<^verbatim>\<open>variances\<close> and \<^verbatim>\<open>counts\<close>
  (each \<^verbatim>\<open>np.zeros(n)\<close> at the start), and the trace so far.\<close>

record worker_state =
  ws_values :: "real list"
  ws_variances :: "real list"
  ws_counts :: "real list"
  ws_trace :: "event list"

text \<open>
  \<^verbatim>\<open>get_running_avg_variance(previous_avg, previous_variance, new_value, count)\<close> of
  \<^verbatim>\<open>pydvl.utils.numeric\<close> is not among the sources: the workers take it as a parameter,
  a function returning the new average and the new variance.
\<close>

type_synonym accumulator = "real \<Rightarrow> real \<Rightarrow> real \<Rightarrow> real \<Rightarrow> real \<times> real"

text \<open>
  \<^verbatim>\<open>random_powerset(s, max_subsets, q)\<close> of \<^verbatim>\<open>pydvl.utils.numeric\<close> is not among the
  sources either. A worker's tape gives, for the number of the call within the worker
  and the arguments of the call, the subsets that the generator yields.
\<close>

type_synonym powerset_tape = "nat \<Rightarrow> nat set \<Rightarrow> int \<Rightarrow> real \<Rightarrow> nat set list"

text \<open>\<^verbatim>\<open>np.unique\<close>: the sorted distinct elements.\<close>

definition np_unique :: "nat list \<Rightarrow> nat list" where
  "np_unique xs = sort (remdups xs)"

text \<open>\<^verbatim>\<open>np.setxor1d(ar1, [idx], assume_unique=True)\<close> on the items \<open>ar1\<close>: the symmetric
  difference.\<close>

definition np_setxor1d :: "nat set \<Rightarrow> nat \<Rightarrow> nat set" where
  "np_setxor1d ar1 idx = (ar1 - {idx}) \<union> ({idx} - ar1)"

text \<open>
  The body of the inner loop of \<^verbatim>\<open>_combinatorial_montecarlo_shapley\<close> for one sampled
  subset \<open>s\<close>. A sampled subset has no repeated element, so \<^verbatim>\<open>len(s)\<close> is its
  cardinality. The utility returns a Python float, so the division by the integer
  \<^verbatim>\<open>math.comb(n - 1, len(s))\<close> first converts it to a float, which raises
  OverflowError when it is too large, and then raises ZeroDivisionError when it is 0;
  \<^verbatim>\<open>values[idx]\<close> raises for an index beyond the array. All this happens after the
  subset was drawn and the utility was called twice.
\<close>

definition combinatorial_step ::
  "accumulator \<Rightarrow> utility \<Rightarrow> nat \<Rightarrow> nat \<Rightarrow> worker_state \<Rightarrow> nat set
     \<Rightarrow> error \<times> event list + worker_state" where
  "combinatorial_step get_running_avg_variance u n idx st s =
     (let trace = ws_trace st @ [Sampled s, OracleCall ({idx} \<union> s), OracleCall s]
      in if float_overflow (real ((n - 1) choose (card s))) then Inl (OverflowError, trace)
         else if (n - 1) choose (card s) = 0 then Inl (ZeroDivisionError, trace)
         else if length (ws_values st) \<le> idx then Inl (IndexError, trace)
         else
           let marginal = (u ({idx} \<union> s) - u s) / real ((n - 1) choose (card s));
               (avg, var) = get_running_avg_variance (ws_values st ! idx)
                              (ws_variances st ! idx) marginal (ws_counts st ! idx)
           in Inr \<lparr>ws_values = (ws_values st)[idx := avg],
                   ws_variances = (ws_variances st)[idx := var],
                   ws_counts = (ws_counts st)[idx := ws_counts st ! idx + 1],
                   ws_trace = trace\<rparr>)"

text \<open>The inner loop \<^verbatim>\<open>for s in power_set\<close>.\<close>

fun combinatorial_inner ::
  "accumulator \<Rightarrow> utility \<Rightarrow> nat \<Rightarrow> nat \<Rightarrow> worker_state \<Rightarrow> nat set list
     \<Rightarrow> error \<times> event list + worker_state" where
  "combinatorial_inner acc u n idx st [] = Inr st"
| "combinatorial_inner acc u n idx st (s # power_set) =
     (case combinatorial_step acc u n idx st s of
        Inl e \<Rightarrow> Inl e
      | Inr st' \<Rightarrow> combinatorial_inner acc u n idx st' power_set)"

text \<open>The outer loop \<^verbatim>\<open>for idx in pbar\<close>; \<open>k\<close> counts the calls of the sampler.\<close>

fun combinatorial_outer ::
  "accumulator \<Rightarrow> utility \<Rightarrow> nat \<Rightarrow> int \<Rightarrow> powerset_tape \<Rightarrow> nat \<Rightarrow> nat list \<Rightarrow> worker_state
     \<Rightarrow> error \<times> event list + worker_state" where
  "combinatorial_outer acc u n max_iterations random_powerset k [] st = Inr st"
| "combinatorial_outer acc u n max_iterations random_powerset k (idx # indices) st =
     (let subset = np_setxor1d {..<n} idx;
          power_set = random_powerset k subset max_iterations (1 / 2)
      in case combinatorial_inner acc u n idx st power_set of
           Inl e \<Rightarrow> Inl e
         | Inr st' \<Rightarrow>
             combinatorial_outer acc u n max_iterations random_powerset (Suc k) indices st')"

text \<open>
  \<^verbatim>\<open>_combinatorial_montecarlo_shapley\<close>. The result is the \<^verbatim>\<open>MonteCarloResults\<close> with
  the trace of the run, or the error raised with the trace up to it.
  \<^verbatim>\<open>2 ** (n - 1) / n\<close>, a true division of integers, raises ZeroDivisionError for
  \<open>n = 0\<close> and OverflowError when the quotient is beyond the floats (from \<open>n = 1036\<close>);
  \<^verbatim>\<open>correction**2\<close>, a power of a Python float evaluated after the loops for the
  standard errors, raises OverflowError when it is beyond the floats (from \<open>n = 523\<close>).
  Item indices are natural numbers (the negative indices of Python are not modelled).
  \<^verbatim>\<open>np.sqrt\<close> is the real square root; on a negative variance, which an online
  accumulator of variances does not produce, numpy would give nan.
\<close>

definition combinatorial_montecarlo_shapley_worker ::
  "accumulator \<Rightarrow> nat list \<Rightarrow> utility \<Rightarrow> nat \<Rightarrow> int \<Rightarrow> powerset_tape
     \<Rightarrow> error \<times> event list + real MonteCarloResults \<times> event list" where
  "combinatorial_montecarlo_shapley_worker acc indices u n max_iterations random_powerset =
     (if length (np_unique indices) \<noteq> length indices then Inl (ValueError, [])
      else if n = 0 then Inl (ZeroDivisionError, [])
      else if float_overflow (2 ^ (n - 1) / real n) then Inl (OverflowError, [])
      else
        let correction = 2 ^ (n - 1) / real n;
            init = \<lparr>ws_values = replicate n 0, ws_variances = replicate n 0,
                    ws_counts = replicate n 0, ws_trace = []\<rparr>
        in case combinatorial_outer acc u n max_iterations random_powerset 0 indices init of
             Inl e \<Rightarrow> Inl e
           | Inr st \<Rightarrow>
               if float_overflow (correction ^ 2) then Inl (OverflowError, ws_trace st)
               else
                 Inr (\<lparr>mc_values = map (\<lambda>v. correction * v) (ws_values st),
                       mc_stderr = map2 (\<lambda>var count. sqrt (correction ^ 2 * var / max 1 count))
                                     (ws_variances st) (ws_counts st),
                       mc_n_samples = None\<rparr>,
                      ws_trace st))"

text \<open>The \<^verbatim>\<open>reducer\<close> of \<^verbatim>\<open>combinatorial_montecarlo_shapley\<close>: the loop
  \<^verbatim>\<open>for val, std, _ in results_it\<close>, then the function.\<close>

fun combinatorial_reducer_loop ::
  "real list \<times> real list \<Rightarrow> real MonteCarloResults list \<Rightarrow> error + real list \<times> real list" where
  "combinatorial_reducer_loop (vs, stderr) [] = Inr (vs, stderr)"
| "combinatorial_reducer_loop (vs, stderr) (r # results_it) =
     (case np_iadd vs (mc_values r) of
        Inl e \<Rightarrow> Inl e
      | Inr vs' \<Rightarrow>
          (case np_iadd stderr (mc_stderr r) of
             Inl e \<Rightarrow> Inl e
           | Inr stderr' \<Rightarrow> combinatorial_reducer_loop (vs', stderr') results_it))"

definition combinatorial_reducer ::
  "nat \<Rightarrow> real MonteCarloResults list \<Rightarrow> error + real MonteCarloResults" where
  "combinatorial_reducer n results_it =
     (case combinatorial_reducer_loop (replicate n 0, replicate n 0) results_it of
        Inl e \<Rightarrow> Inl e
      | Inr (vs, stderr) \<Rightarrow> Inr \<lparr>mc_values = vs, mc_stderr = stderr, mc_n_samples = None\<rparr>)"

text \<open>What the job sees of a worker: its result or its error.\<close>

definition job_outcome :: "error \<times> event list + 'r \<times> event list \<Rightarrow> error + 'r" where
  "job_outcome w = (case w of Inl (e, trace) \<Rightarrow> Inl e | Inr (r, trace) \<Rightarrow> Inr r)"

text \<open>
  \<^verbatim>\<open>combinatorial_montecarlo_shapley\<close>, up to the naming and sorting of the result.
  The job has \<^verbatim>\<open>chunkify_inputs=True\<close>: \<open>chunks\<close> are the parts of \<^verbatim>\<open>u.data.indices\<close>
  that the job hands to its workers.
\<close>

definition combinatorial_montecarlo_shapley ::
  "accumulator \<Rightarrow> utility \<Rightarrow> nat \<Rightarrow> int \<Rightarrow> nat list list \<Rightarrow> (nat \<Rightarrow> powerset_tape)
     \<Rightarrow> error + real list \<times> real list" where
  "combinatorial_montecarlo_shapley acc u n max_iterations chunks random_powerset =
     (case map_reduce_job
             (\<lambda>job indices. job_outcome
                (combinatorial_montecarlo_shapley_worker acc indices u n max_iterations
                   (random_powerset job)))
             (combinatorial_reducer n) chunks of
        Inl e \<Rightarrow> Inl e
      | Inr results \<Rightarrow> Inr (mc_values results, mc_stderr results))"

subsection \<open>The Owen-sampling estimator\<close>

text \<open>\<^verbatim>\<open>class OwenAlgorithm(Enum)\<close>.\<close>

datatype OwenAlgorithm = Full | Halved

text \<open>
  The innermost loop of \<^verbatim>\<open>_owen_sampling_shapley\<close>, \<^verbatim>\<open>for i in u.data.indices\<close>, for
  one sampled subset \<open>s\<close> and the \<open>correction\<close> computed for the current \<open>q\<close>. In the
  branch \<open>i \<in> s\<close> the method \<open>Full\<close> continues with the next item, the method \<open>Halved\<close>
  takes the marginal on the complement of \<open>s\<close> in the index set.
\<close>

fun owen_items ::
  "utility \<Rightarrow> OwenAlgorithm \<Rightarrow> nat \<Rightarrow> real \<Rightarrow> nat set \<Rightarrow> nat list \<Rightarrow> real list \<Rightarrow> real list" where
  "owen_items u method n correction s [] vs = vs"
| "owen_items u method n correction s (i # items) vs =
     (if i \<in> s then
        (if method = Full then owen_items u method n correction s items vs
         else
           let s_complement = {..<n} - s;
               marginal = u ({i} \<union> s_complement) - u s_complement
           in owen_items u method n correction s items (vs[i := vs ! i + marginal / correction]))
      else
        let marginal = u ({i} \<union> s) - u s
        in owen_items u method n correction s items (vs[i := vs ! i + marginal / correction]))"

text \<open>The loop \<^verbatim>\<open>for s in power_set\<close>, with \<^verbatim>\<open>correction = max(1 / 500, 1 - q)\<close>.\<close>

fun owen_subsets ::
  "utility \<Rightarrow> OwenAlgorithm \<Rightarrow> nat \<Rightarrow> real \<Rightarrow> nat set list \<Rightarrow> real list \<Rightarrow> real list" where
  "owen_subsets u method n q [] vs = vs"
| "owen_subsets u method n q (s # power_set) vs =
     (let correction = max (1 / 500) (1 - q)
      in owen_subsets u method n q power_set (owen_items u method n correction s [0..<n] vs))"

text \<open>The loop \<^verbatim>\<open>for q in pbar\<close>; \<open>k\<close> counts the calls of the sampler.\<close>

fun owen_q_values ::
  "utility \<Rightarrow> OwenAlgorithm \<Rightarrow> nat \<Rightarrow> int \<Rightarrow> powerset_tape \<Rightarrow> nat \<Rightarrow> real list \<Rightarrow> real list
     \<Rightarrow> real list" where
  "owen_q_values u method n max_iterations random_powerset k [] vs = vs"
| "owen_q_values u method n max_iterations random_powerset k (q # q_values) vs =
     (let power_set = random_powerset k {..<n} max_iterations q
      in owen_q_values u method n max_iterations random_powerset (Suc k) q_values
           (owen_subsets u method n q power_set vs))"

text \<open>\<^verbatim>\<open>_owen_sampling_shapley\<close>.\<close>

definition owen_sampling_shapley_worker ::
  "real list \<Rightarrow> utility \<Rightarrow> nat \<Rightarrow> OwenAlgorithm \<Rightarrow> int \<Rightarrow> powerset_tape
     \<Rightarrow> real MonteCarloResults" where
  "owen_sampling_shapley_worker q_values u n method max_iterations random_powerset =
     \<lparr>mc_values = owen_q_values u method n max_iterations random_powerset 0 q_values
                     (replicate n 0),
      mc_stderr = replicate n 0,
      mc_n_samples = Some (int (length q_values) * max_iterations)\<rparr>"

text \<open>
  The \<^verbatim>\<open>reducer\<close> of \<^verbatim>\<open>owen_sampling_shapley\<close>: the loop
  \<^verbatim>\<open>for val, _, samples in results_it\<close> (adding \<^verbatim>\<open>None\<close> to an integer is a TypeError),
  then \<^verbatim>\<open>values /= n_samples\<close> and the result with \<^verbatim>\<open>np.zeros_like(values)\<close> as
  standard errors.
\<close>

fun owen_reducer_loop ::
  "real list \<times> int \<Rightarrow> real MonteCarloResults list \<Rightarrow> error + real list \<times> int" where
  "owen_reducer_loop (vs, n_samples) [] = Inr (vs, n_samples)"
| "owen_reducer_loop (vs, n_samples) (r # results_it) =
     (case np_iadd vs (mc_values r) of
        Inl e \<Rightarrow> Inl e
      | Inr vs' \<Rightarrow>
          (case mc_n_samples r of
             None \<Rightarrow> Inl TypeError
           | Some samples \<Rightarrow> owen_reducer_loop (vs', n_samples + samples) results_it))"

definition owen_reducer ::
  "nat \<Rightarrow> real MonteCarloResults list \<Rightarrow> error + npfloat MonteCarloResults" where
  "owen_reducer n results_it =
     (case owen_reducer_loop (replicate n 0, 0) results_it of
        Inl e \<Rightarrow> Inl e
      | Inr (vs, n_samples) \<Rightarrow>
          Inr \<lparr>mc_values = map (\<lambda>v. np_true_divide (Finite v) (real_of_int n_samples)) vs,
                mc_stderr = replicate (length vs) (Finite 0),
                mc_n_samples = None\<rparr>)"

text \<open>\<^verbatim>\<open>np.linspace(start=0, stop=stop, num=num)\<close>: a negative \<open>num\<close> is a ValueError.\<close>

definition np_linspace :: "real \<Rightarrow> int \<Rightarrow> error + real list" where
  "np_linspace stop num =
     (if num < 0 then Inl ValueError
      else if num = 1 then Inr [0]
      else Inr (map (\<lambda>i. stop * real i / real (nat num - 1)) [0..<nat num]))"

text \<open>\<^verbatim>\<open>q_stop = {OwenAlgorithm.Full: 1.0, OwenAlgorithm.Halved: 0.5}\<close>.\<close>

fun q_stop :: "OwenAlgorithm \<Rightarrow> real" where
  "q_stop Full = 1"
| "q_stop Halved = 1 / 2"

text \<open>
  \<^verbatim>\<open>owen_sampling_shapley\<close>, up to the sorting of the values. The job has
  \<^verbatim>\<open>chunkify_inputs=True\<close>: \<open>chunkify\<close> is the job's way of cutting its input, the
  \<open>q\<close> values, into one chunk per worker. The second component is the dictionary
  \<^verbatim>\<open>montecarlo_errors\<close>, as the list of its items, \<open>data_names\<close> being
  \<^verbatim>\<open>u.data.data_names\<close>.
\<close>

definition owen_sampling_shapley ::
  "utility \<Rightarrow> nat \<Rightarrow> (nat \<Rightarrow> string) \<Rightarrow> int \<Rightarrow> int \<Rightarrow> OwenAlgorithm
     \<Rightarrow> (real list \<Rightarrow> real list list) \<Rightarrow> (nat \<Rightarrow> powerset_tape)
     \<Rightarrow> error + npfloat list \<times> (string \<times> npfloat) list" where
  "owen_sampling_shapley u n data_names max_iterations max_q method chunkify random_powerset =
     (case np_linspace (q_stop method) max_q of
        Inl e \<Rightarrow> Inl e
      | Inr q_steps \<Rightarrow>
          (case map_reduce_job
                  (\<lambda>job q_values. Inr (owen_sampling_shapley_worker q_values u n method
                                          max_iterations (random_powerset job)))
                  (owen_reducer n) (chunkify q_steps) of
             Inl e \<Rightarrow> Inl e
           | Inr results \<Rightarrow>
               Inr (mc_values results,
                    map (\<lambda>i. (data_names i, mc_stderr results ! i))
                      [0..<length (mc_stderr results)])))"

subsection \<open>The truncated estimator: the orchestration\<close>

text \<open>
  \<^verbatim>\<open>truncated_montecarlo_shapley\<close> creates a coordinator and workers and polls the
  coordinator. The coordinator and the workers live in \<^verbatim>\<open>pydvl/value/shapley/actor.py\<close>,
  which is not among the sources, and run concurrently with the polling loop. What the
  loop sees of them and of the clock is an input: at its \<open>k\<close>-th iteration either the
  update interval has not elapsed (\<open>None\<close>), or it has and the coordinator is in some
  state.
\<close>

record coordinator =
  coord_value_tolerance :: "real option"
  coord_max_iterations :: "int option"

text \<open>The state of the coordinator at a poll: the number of worker updates merged, the
  number of permutations merged, and the largest ratio of standard deviation to value
  over the items.\<close>

record snapshot =
  snap_updates :: nat
  snap_iterations :: int
  snap_ratio :: real

text \<open>
  Modelled from the spec: \<^verbatim>\<open>get_shapley_coordinator\<close> of
  \<^verbatim>\<open>pydvl/value/shapley/actor.py\<close>, which is not among the sources. The spec (4.5):
  the coordinator holds the two thresholds, either of which may be \<open>None\<close>; the spec
  gives the creation of the coordinator no failure (7: the protocol has no fatal
  condition of its own).
\<close>

definition get_shapley_coordinator :: "real option \<Rightarrow> int option \<Rightarrow> coordinator" where
  "get_shapley_coordinator value_tolerance max_iterations =
     \<lparr>coord_value_tolerance = value_tolerance, coord_max_iterations = max_iterations\<rparr>"

text \<open>
  Modelled from the spec: \<^verbatim>\<open>check_done\<close> of the coordinator (same file). The spec (4.5,
  8): true when the largest ratio is below the tolerance or the number of merged
  permutations has reached the maximum, a threshold \<open>None\<close> disabling its criterion;
  never true before one worker update was merged.
\<close>

definition check_done :: "coordinator \<Rightarrow> snapshot \<Rightarrow> bool" where
  "check_done c snap \<longleftrightarrow>
     0 < snap_updates snap \<and>
     ((case coord_value_tolerance c of None \<Rightarrow> False | Some tol \<Rightarrow> snap_ratio snap < tol) \<or>
      (case coord_max_iterations c of None \<Rightarrow> False
       | Some m \<Rightarrow> m \<le> snap_iterations snap))"

text \<open>
  The loop \<^verbatim>\<open>while not is_done\<close> of \<^verbatim>\<open>truncated_montecarlo_shapley\<close>, from its
  iteration \<open>k\<close> on. It returns the number of the iteration in which \<^verbatim>\<open>check_done()\<close>
  answered true; a loop that runs forever has the value \<open>None\<close>.
\<close>

partial_function (option) polling_loop ::
  "coordinator \<Rightarrow> (nat \<Rightarrow> snapshot option) \<Rightarrow> nat \<Rightarrow> nat option" where
  "polling_loop c polls k =
     (case polls k of
        None \<Rightarrow> polling_loop c polls (Suc k)
      | Some snap \<Rightarrow> if check_done c snap then Some k else polling_loop c polls (Suc k))"

text \<open>
  \<^verbatim>\<open>truncated_montecarlo_shapley\<close>, up to the naming and sorting of the result. The
  function does not look at its two thresholds: it hands them to the coordinator, starts
  the workers and polls. \<open>get_results k\<close> is what \<^verbatim>\<open>coordinator.get_results()\<close> returns
  when the loop has ended in its iteration \<open>k\<close>. The result is \<open>None\<close> when the call does
  not return.
\<close>

definition truncated_montecarlo_shapley ::
  "real option \<Rightarrow> int option \<Rightarrow> (nat \<Rightarrow> snapshot option)
     \<Rightarrow> (nat \<Rightarrow> real list \<times> real list) \<Rightarrow> (real list \<times> real list) option" where
  "truncated_montecarlo_shapley value_tolerance max_iterations polls get_results =
     (let coordinator = get_shapley_coordinator value_tolerance max_iterations
      in case polling_loop coordinator polls 0 of
           None \<Rightarrow> None
         | Some k \<Rightarrow> Some (get_results k))"

section \<open>The specification's quantities\<close>

subsection \<open>Permutation estimator\<close>

text \<open>What \<^verbatim>\<open>np.random.permutation(u.data.indices)\<close> returns for \<open>n\<close> items: every
  item once.\<close>

definition is_index_permutation :: "nat \<Rightarrow> nat list \<Rightarrow> bool" where
  "is_index_permutation n p \<longleftrightarrow> distinct p \<and> set p = {..<n}"

text \<open>The pooled sample of all workers: the number of rows, and per item the mean and
  the population standard deviation over every row of every worker.\<close>

definition total_rows :: "real list list list \<Rightarrow> nat" where
  "total_rows worker_results = sum_list (map length worker_results)"

definition pooled_mean :: "real list list list \<Rightarrow> nat \<Rightarrow> real" where
  "pooled_mean worker_results j =
     (\<Sum>m\<leftarrow>worker_results. \<Sum>row\<leftarrow>m. row ! j) / real (total_rows worker_results)"

definition pooled_std :: "real list list list \<Rightarrow> nat \<Rightarrow> real" where
  "pooled_std worker_results j =
     sqrt ((\<Sum>m\<leftarrow>worker_results. \<Sum>row\<leftarrow>m. (row ! j - pooled_mean worker_results j) ^ 2)
           / real (total_rows worker_results))"

subsection \<open>Combinatorial estimator\<close>

text \<open>
  Modelled from the spec: the contract of \<^verbatim>\<open>random_powerset\<close> (\<^verbatim>\<open>pydvl.utils.numeric\<close>,
  not among the sources). The spec (4.2): it produces subsets of the set it is given.
\<close>

definition powerset_contract :: "powerset_tape \<Rightarrow> bool" where
  "powerset_contract random_powerset \<longleftrightarrow>
     (\<forall>k S max_subsets q. \<forall>s \<in> set (random_powerset k S max_subsets q). s \<subseteq> S)"

text \<open>The marginal of item \<open>idx\<close> on the subset \<open>s\<close>, weighted as in the Shapley sum:
  \<open>(u(s \<union> {idx}) - u(s)) / C(N-1, |s|)\<close>.\<close>

definition weighted_marginal :: "utility \<Rightarrow> nat \<Rightarrow> nat \<Rightarrow> nat set \<Rightarrow> real" where
  "weighted_marginal u n idx s = (u (s \<union> {idx}) - u s) / real ((n - 1) choose (card s))"

text \<open>Feeding a sequence of observations through the online accumulator: the state is
  the average, the variance and the number of observations so far.\<close>

fun accumulate :: "accumulator \<Rightarrow> real \<times> real \<times> real \<Rightarrow> real list \<Rightarrow> real \<times> real \<times> real" where
  "accumulate acc (avg, var, count) [] = (avg, var, count)"
| "accumulate acc (avg, var, count) (x # xs) =
     (case acc avg var x count of (avg', var') \<Rightarrow> accumulate acc (avg', var', count + 1) xs)"

text \<open>The subsets drawn for the item at position \<open>k\<close> of the worker's index list.\<close>

definition drawn ::
  "powerset_tape \<Rightarrow> nat \<Rightarrow> int \<Rightarrow> nat list \<Rightarrow> nat \<Rightarrow> nat set list" where
  "drawn random_powerset n max_iterations indices k =
     random_powerset k ({..<n} - {indices ! k}) max_iterations (1 / 2)"

text \<open>The non-zero support of a vector.\<close>

definition support :: "real list \<Rightarrow> nat set" where
  "support v = {i. i < length v \<and> v ! i \<noteq> 0}"

text \<open>The tape of a worker that does the work of two: the first \<open>k\<close> calls are answered
  by the first tape, the later ones by the second.\<close>

definition join_tapes :: "nat \<Rightarrow> powerset_tape \<Rightarrow> powerset_tape \<Rightarrow> powerset_tape" where
  "join_tapes k tape1 tape2 = (\<lambda>i. if i < k then tape1 i else tape2 (i - k))"

text \<open>
  Modelled from the spec: the chunking of \<^verbatim>\<open>MapReduceJob\<close> (not among the sources).
  The spec (4.4, 4.3): the input is partitioned, every element goes to one worker.
\<close>

definition is_chunking :: "nat list \<Rightarrow> nat list list \<Rightarrow> bool" where
  "is_chunking xs chunks \<longleftrightarrow> (\<forall>x. count_list (concat chunks) x = count_list xs x)"

subsection \<open>Owen-sampling estimator\<close>

text \<open>What one sampled subset \<open>s\<close>, drawn with inclusion probability \<open>q\<close>, contributes to
  the accumulated value of item \<open>i\<close>.\<close>

definition owen_contribution ::
  "utility \<Rightarrow> OwenAlgorithm \<Rightarrow> nat \<Rightarrow> real \<Rightarrow> nat set \<Rightarrow> nat \<Rightarrow> real" where
  "owen_contribution u method n q s i =
     (if i \<notin> s then (u ({i} \<union> s) - u s) / max (1 / 500) (1 - q)
      else (case method of
              Full \<Rightarrow> 0
            | Halved \<Rightarrow> (u ({i} \<union> ({..<n} - s)) - u ({..<n} - s)) / max (1 / 500) (1 - q)))"

subsection \<open>Auxiliary notions of the proofs\<close>

text \<open>The arrays of a worker have \<open>n\<close> entries; the entry of an item; the state at the
  start; the result computed from the final state.\<close>

definition wf_state :: "nat \<Rightarrow> worker_state \<Rightarrow> bool" where
  "wf_state n st \<longleftrightarrow>
     length (ws_values st) = n \<and> length (ws_variances st) = n \<and> length (ws_counts st) = n"

definition entry :: "worker_state \<Rightarrow> nat \<Rightarrow> real \<times> real \<times> real" where
  "entry st i = (ws_values st ! i, ws_variances st ! i, ws_counts st ! i)"

definition init_state :: "nat \<Rightarrow> worker_state" where
  "init_state n = \<lparr>ws_values = replicate n 0, ws_variances = replicate n 0,
                    ws_counts = replicate n 0, ws_trace = []\<rparr>"

definition results_of :: "nat \<Rightarrow> worker_state \<Rightarrow> real MonteCarloResults" where
  "results_of n st =
     \<lparr>mc_values = map (\<lambda>v. (2 ^ (n - 1) / real n) * v) (ws_values st),
      mc_stderr = map2 (\<lambda>var count. sqrt ((2 ^ (n - 1) / real n) ^ 2 * var / max 1 count))
                    (ws_variances st) (ws_counts st),
      mc_n_samples = None\<rparr>"

section \<open>Concrete inputs\<close>

text \<open>Two utilities: one that is 1 on every set (also on the empty set), and the size
  of the set.\<close>

definition constant_utility :: utility where
  "constant_utility S = 1"

definition size_utility :: utility where
  "size_utility S = real (card S)"

text \<open>Tapes of permutations for one item and for two items.\<close>

definition single_item_tape :: "nat \<Rightarrow> nat \<Rightarrow> nat list" where
  "single_item_tape job k = [0]"


text \<open>An online accumulator of Welford's kind, and a tape on which every call of the
  sampler yields one subset, the whole set it was given.\<close>

definition welford :: accumulator where
  "welford previous_avg previous_variance new_value count =
     (let new_average = (new_value + count * previous_avg) / (count + 1);
          new_variance = previous_variance
            + ((new_value - previous_avg) * (new_value - new_average) - previous_variance)
              / (count + 1)
      in (new_average, new_variance))"

definition whole_set_tape :: powerset_tape where
  "whole_set_tape k S max_subsets q = [S]"

text \<open>The same tape for every worker, and two results with disjoint support.\<close>

definition whole_set_tapes :: "nat \<Rightarrow> powerset_tape" where
  "whole_set_tapes job = whole_set_tape"

definition left_result :: "real MonteCarloResults" where
  "left_result = \<lparr>mc_values = [1, 0, 0], mc_stderr = [2, 0, 0], mc_n_samples = None\<rparr>"

definition right_result :: "real MonteCarloResults" where
  "right_result = \<lparr>mc_values = [0, 3, 5], mc_stderr = [0, 4, 6], mc_n_samples = None\<rparr>"

text \<open>Two results of Owen workers, with 2 and with 6 samples; names for the items; a
  way of cutting a list into chunks of one element.\<close>

definition owen_result_a :: "real MonteCarloResults" where
  "owen_result_a = \<lparr>mc_values = [1, 2], mc_stderr = [0, 0], mc_n_samples = Some 2\<rparr>"

definition owen_result_b :: "real MonteCarloResults" where
  "owen_result_b = \<lparr>mc_values = [3, 4], mc_stderr = [0, 0], mc_n_samples = Some 6\<rparr>"

definition item_name :: "nat \<Rightarrow> string" where
  "item_name i = (if i = 0 then ''a'' else ''b'')"

definition singletons :: "real list \<Rightarrow> real list list" where
  "singletons xs = map (\<lambda>x. [x]) xs"

text \<open>A utility that is not additive (1 on every set but the empty one), and tapes of
  permutations of two items on which the first worker draws \<open>[0, 1]\<close> and the others
  \<open>[1, 0]\<close>.\<close>

definition nonempty_utility :: utility where
  "nonempty_utility S = (if S = {} then 0 else 1)"

definition job_tape :: "nat \<Rightarrow> nat \<Rightarrow> nat list" where
  "job_tape job k = (if job = 0 then [0, 1] else [1, 0])"

text \<open>The square of the size of the set, and a tape on which every call of the sampler
  yields two subsets: the empty one, and item 1 if it is in the set given.\<close>

definition square_utility :: utility where
  "square_utility S = (real (card S)) ^ 2"

definition two_draws_tape :: powerset_tape where
  "two_draws_tape k S max_subsets q = [{}, S \<inter> {1}]"

definition two_draws_tapes :: "nat \<Rightarrow> powerset_tape" where
  "two_draws_tapes job = two_draws_tape"

text \<open>A run in which the workers report forever: at every iteration of the polling
  loop the interval has elapsed and the coordinator has merged that many updates.\<close>

definition busy_polls :: "nat \<Rightarrow> snapshot option" where
  "busy_polls k = Some \<lparr>snap_updates = Suc k, snap_iterations = int (Suc k), snap_ratio = 0\<rparr>"

definition no_results :: "nat \<Rightarrow> real list \<times> real list" where
  "no_results k = ([], [])"

section \<open>Proofs\<close>

subsection \<open>Permutation estimator\<close>

lemma collect_map_Inr:
  "(\<And>x. x \<in> set xs \<Longrightarrow> f x = Inr (g x)) \<Longrightarrow> collect (map f xs) = Inr (map g xs)"
  by (induction xs) auto


lemma marginals_rows_Inr:
  "(\<And>k. k \<in> set its \<Longrightarrow> marginals_row u n (rp k) = Inr (g k)) \<Longrightarrow>
     marginals_rows u n rp its = Inr (map g its)"
  by (induction its) auto

lemma marginals_row_single: "marginals_row u (Suc 0) [0] = Inr [u {0}]"
  by (simp add: marginals_row_def)

lemma perm_single: "distinct p \<Longrightarrow> set p = {..<Suc 0} \<Longrightarrow> p = [0]"
proof -
  assume d: "distinct p" and s: "set p = {..<Suc 0}"
  have "length p = 1" using distinct_card [OF d] s by simp
  then obtain x where "p = [x]" by (cases p) auto
  with s show ?thesis by auto
qed

lemma sum_list_concat_map: "sum_list (map f (concat ms)) = (\<Sum>m\<leftarrow>ms. \<Sum>r\<leftarrow>m. f r)"
  by (induction ms) auto

lemma length_concat_sum: "length (concat ms) = sum_list (map length ms)"
  by (induction ms) auto

lemma marginals_single_worker:
  assumes "\<And>k. is_index_permutation 1 (rp k)" and "0 \<le> m"
  shows "permutation_montecarlo_marginals u 1 m rp = Inr (replicate (nat m) [u {0}])"
proof -
  have "rp k = [0]" for k
    using assms(1) [of k] by (simp add: is_index_permutation_def perm_single)
  then have "marginals_row u 1 (rp k) = Inr [u {0}]" for k
    by (simp add: marginals_row_single)
  then have "marginals_rows u 1 rp [0..<nat m] = Inr (map (\<lambda>k. [u {0}]) [0..<nat m])"
    by (intro marginals_rows_Inr) simp
  then show ?thesis
    using assms(2) by (simp add: permutation_montecarlo_marginals_def map_replicate_const)
qed

lemma map_reduce_job_Inr:
  assumes "\<And>job. job < length inputs \<Longrightarrow> map_func job (inputs ! job) = Inr (g job)"
  shows "map_reduce_job map_func reduce_func inputs = reduce_func (map g [0..<length inputs])"
proof -
  have "collect (map (\<lambda>job. map_func job (inputs ! job)) [0..<length inputs])
          = Inr (map g [0..<length inputs])"
    by (intro collect_map_Inr) (simp add: assms)
  then show ?thesis by (simp add: map_reduce_job_def)
qed


lemma mean_column_concat:
  "mean (column (concat ms) j) = pooled_mean ms j"
  by (simp add: mean_def column_def pooled_mean_def total_rows_def sum_list_concat_map
      length_concat_sum)

lemma std_column_concat:
  "sqrt (mean (map (\<lambda>x. \<bar>x - mean (column (concat ms) j)\<bar> ^ 2) (column (concat ms) j)))
     = pooled_std ms j"
proof -
  have "map (\<lambda>x. \<bar>x - c\<bar> ^ 2) (column (concat ms) j)
          = map (\<lambda>row. (row ! j - c) ^ 2) (concat ms)" for c
    by (simp add: column_def)
  then have "mean (map (\<lambda>x. \<bar>x - c\<bar> ^ 2) (column (concat ms) j))
          = (\<Sum>m\<leftarrow>ms. \<Sum>row\<leftarrow>m. (row ! j - c) ^ 2) / real (total_rows ms)" for c
    by (simp add: mean_def total_rows_def sum_list_concat_map length_concat_sum column_def)
  then show ?thesis
    unfolding mean_column_concat pooled_std_def by simp
qed

lemma full_results_ok:
  assumes "0 < n_jobs"
    and "\<And>job. job < n_jobs \<Longrightarrow>
           permutation_montecarlo_marginals u n (max 1 (max_iterations div int n_jobs))
             (rp job) = Inr (g job)"
  shows "permutation_full_results u n max_iterations n_jobs rp
           = Inr (concat (map g [0..<n_jobs]))"
proof -
  have "map_reduce_job
          (\<lambda>job u_id. permutation_montecarlo_marginals u_id n
                         (max 1 (max_iterations div int n_jobs)) (rp job))
          np_concatenate (replicate n_jobs u)
        = np_concatenate (map g [0..<length (replicate n_jobs u)])"
    by (intro map_reduce_job_Inr) (simp add: assms(2))
  then show ?thesis
    using assms(1) by (simp add: permutation_full_results_def np_concatenate_def)
qed

lemma marginals_rows_length:
  "marginals_rows u n rp its = Inr rows \<Longrightarrow> length rows = length its"
  by (induction its arbitrary: rows) (auto split: sum.splits)

lemma marginals_length:
  "permutation_montecarlo_marginals u n m rp = Inr rows \<Longrightarrow> length rows = nat m"
  by (auto simp: permutation_montecarlo_marginals_def split: if_splits
      dest: marginals_rows_length)

text \<open>
  C2. In \<^verbatim>\<open>permutation_montecarlo_shapley\<close> the matrices returned by the workers are
  concatenated row-wise into \<^verbatim>\<open>full_results\<close>, and the function returns, for every
  item \<open>j\<close>, as value the mean over all rows of all workers (the sum of all entries of
  column \<open>j\<close> divided by the total number of rows) and as standard error the population
  standard deviation over all rows divided by the square root of the total number of
  rows.
\<close>

theorem permutation_reduce_pooled:
  assumes "0 < n_jobs" and "length worker_results = n_jobs"
    and "\<forall>job<n_jobs.
           permutation_montecarlo_marginals u n (max 1 (max_iterations div int n_jobs))
             (rp job) = Inr (worker_results ! job)"
    and "j < n"
  shows "permutation_full_results u n max_iterations n_jobs rp = Inr (concat worker_results) \<and>
         (\<exists>acc acc_std.
            permutation_montecarlo_shapley u n max_iterations n_jobs rp = Inr (acc, acc_std) \<and>
            length acc = n \<and> length acc_std = n \<and>
            acc ! j = Finite (pooled_mean worker_results j) \<and>
            acc_std ! j = Finite (pooled_std worker_results j
                                   / sqrt (real (total_rows worker_results))))"
proof -
  let ?ipj = "max 1 (max_iterations div int n_jobs)"
  have m: "map ((!) worker_results) [0..<n_jobs] = worker_results"
    unfolding assms(2) [symmetric] by (rule map_nth)
  have full: "permutation_full_results u n max_iterations n_jobs rp
                = Inr (concat worker_results)"
    using full_results_ok [OF assms(1), of u n max_iterations rp "(!) worker_results"]
      assms(3) m by simp
  have "length (worker_results ! job) = nat ?ipj" if "job < n_jobs" for job
    using assms(3) that by (auto dest: marginals_length)
  then have "length (worker_results ! 0) = nat ?ipj" using assms(1) by simp
  moreover have "worker_results ! 0 \<in> set worker_results" using assms(1,2) by simp
  ultimately have "nat ?ipj \<in> set (map length worker_results)"
    by (metis image_eqI list.set_map)
  then have "nat ?ipj \<le> total_rows worker_results"
    unfolding total_rows_def by (intro member_le_sum_list) simp_all
  then have pos: "0 < total_rows worker_results" by simp
  have ne': "concat worker_results \<noteq> []"
    using pos by (auto simp: total_rows_def length_concat_sum [symmetric])
  have len: "length (concat worker_results) = total_rows worker_results"
    by (simp add: total_rows_def length_concat_sum)
  have col: "column (concat worker_results) j \<noteq> []"
    using ne' by (simp add: column_def)
  have me: "np_mean (column (concat worker_results) j) = Finite (pooled_mean worker_results j)"
    using col by (simp add: np_mean_def mean_column_concat)
  have sd: "np_std (column (concat worker_results) j) = Finite (pooled_std worker_results j)"
    unfolding np_std_def std_column_concat using col by simp
  have nz: "sqrt (real (total_rows worker_results)) \<noteq> 0"
    using pos by simp
  show ?thesis
    using full assms(4) me sd nz
    by (simp add: permutation_montecarlo_shapley_def permutation_estimate_def len)
qed

theorem permutation_reduce_pooled_witness:
  "(0::nat) < 2 \<and> length [[[1, 0]], [[0, 1 :: real]]] = 2 \<and>
   permutation_montecarlo_marginals nonempty_utility 2 (max 1 (2 div int 2)) (job_tape 0)
     = Inr [[1, 0]] \<and>
   permutation_montecarlo_marginals nonempty_utility 2 (max 1 (2 div int 2)) (job_tape 1)
     = Inr [[0, 1]] \<and>
   pooled_mean [[[1, 0]], [[0, 1]]] 0 = 1 / 2 \<and>
   pooled_std [[[1, 0]], [[0, 1]]] 0 = 1 / 2 \<and>
   total_rows [[[1, 0]], [[0, 1]]] = 2 \<and>
   (\<exists>acc acc_std.
      permutation_montecarlo_shapley nonempty_utility 2 2 2 job_tape = Inr (acc, acc_std) \<and>
      acc ! 0 = Finite (1 / 2) \<and> acc_std ! 0 = Finite (1 / 2 / sqrt 2))"
proof -
  have n: "(0::nat) < 2" and l: "length [[[1, 0]], [[0, 1 :: real]]] = 2" by simp_all
  have w0: "permutation_montecarlo_marginals nonempty_utility 2 (max 1 (2 div int 2))
              (job_tape 0) = Inr [[1, 0]]"
    by (simp add: permutation_montecarlo_marginals_def marginals_row_def nonempty_utility_def
        job_tape_def numeral_2_eq_2)
  have w1: "permutation_montecarlo_marginals nonempty_utility 2 (max 1 (2 div int 2))
              (job_tape 1) = Inr [[0, 1]]"
    by (simp add: permutation_montecarlo_marginals_def marginals_row_def nonempty_utility_def
        job_tape_def numeral_2_eq_2)
  have h: "\<forall>job<2. permutation_montecarlo_marginals nonempty_utility 2
                       (max 1 (2 div int 2)) (job_tape job)
                     = Inr ([[[1, 0]], [[0, 1]]] ! job)"
    using w0 w1 by (simp add: numeral_2_eq_2 All_less_Suc)
  have pm: "pooled_mean [[[1, 0]], [[0, 1]]] 0 = 1 / 2"
    by (simp add: pooled_mean_def total_rows_def)
  have "sqrt (1 / 4) = 1 / 2"
    by (simp add: real_sqrt_divide)
  then have ps: "pooled_std [[[1, 0]], [[0, 1]]] 0 = 1 / 2"
    by (simp add: pooled_std_def pm total_rows_def power2_eq_square)
  have tr: "total_rows [[[1, 0]], [[0, 1]]] = 2"
    by (simp add: total_rows_def)
  from permutation_reduce_pooled [OF n l h n, THEN conjunct2] show ?thesis
    using w0 w1 pm ps tr by auto
qed




subsection \<open>The range of floats\<close>

lemma correction_step: "(2::real) ^ k / real (Suc k) \<le> 2 ^ Suc k / real (Suc (Suc k))"
  by (simp add: field_simps)

lemma correction_mono:
  assumes "k \<le> l"
  shows "(2::real) ^ k / real (Suc k) \<le> 2 ^ l / real (Suc l)"
  using assms
  by (rule lift_Suc_mono_le [of "\<lambda>k. (2::real) ^ k / real (Suc k)", OF correction_step])

lemma correction_ge_one: "1 \<le> (2::real) ^ k / real (Suc k)"
  using correction_mono [of 0 k] by simp

lemma threshold_factored: "float_overflow_threshold = 2 ^ 970 * (2 ^ 54 - 1)"
  by (simp add: float_overflow_threshold_def algebra_simps flip: power_add)

lemma float_bound_522: "((2::real) ^ 521 / real (Suc 521)) ^ 2 < float_overflow_threshold"
proof -
  have "((2::real) ^ 521 / real (Suc 521)) ^ 2 = 2 ^ 970 * (2 ^ 72 / 272484)"
    by (simp add: power_divide power2_eq_square flip: power_add)
  also have "\<dots> < 2 ^ 970 * (2 ^ 54 - 1)"
    by (intro mult_strict_left_mono) simp_all
  finally show ?thesis
    by (simp only: threshold_factored)
qed

lemma float_bound_523: "float_overflow_threshold \<le> ((2::real) ^ 522 / real (Suc 522)) ^ 2"
proof -
  have "(2::real) ^ 970 * (2 ^ 54 - 1) \<le> 2 ^ 1024"
    by (simp add: algebra_simps flip: power_add)
  also have "\<dots> \<le> 2 ^ 1024 * (2 ^ 20 / 273529)"
    by simp
  also have "\<dots> = (2 ^ 522 / real (Suc 522)) ^ 2"
    by (simp add: power_divide power2_eq_square flip: power_add)
  finally show ?thesis
    by (simp only: threshold_factored)
qed

lemma float_bound_pow: "(2::real) ^ 970 < float_overflow_threshold"
proof -
  have "(2::real) ^ 970 * 1 < 2 ^ 970 * (2 ^ 54 - 1)"
    by (intro mult_strict_left_mono) simp_all
  then show ?thesis
    by (simp only: threshold_factored mult_1_right)
qed

lemma small_no_overflow:
  assumes "0 < n" and "n \<le> 522"
  shows "\<not> float_overflow ((2 ^ (n - 1) / real n) ^ 2)"
    and "\<not> float_overflow (2 ^ (n - 1) / real n)"
proof -
  obtain k where k: "n = Suc k" "k \<le> 521"
    using assms by (cases n) auto
  define c where "c = (2::real) ^ k / real (Suc k)"
  have one: "1 \<le> c" unfolding c_def by (rule correction_ge_one)
  then have pos: "0 \<le> c" by simp
  have "c \<le> 2 ^ 521 / real (Suc 521)"
    unfolding c_def using k(2) by (rule correction_mono)
  then have "c ^ 2 \<le> (2 ^ 521 / real (Suc 521)) ^ 2"
    using pos by (rule power_mono)
  then have sq: "c ^ 2 < float_overflow_threshold"
    using float_bound_522 by (rule le_less_trans)
  have "c * 1 \<le> c * c"
    using one pos by (rule mult_left_mono)
  then have "c \<le> c ^ 2" by (simp add: power2_eq_square)
  then have lin: "c < float_overflow_threshold"
    using sq by (rule le_less_trans)
  have eq: "2 ^ (n - 1) / real n = c"
    unfolding c_def k(1) by simp
  have a: "\<bar>c ^ 2\<bar> = c ^ 2" "\<bar>c\<bar> = c" using pos by simp_all
  show "\<not> float_overflow ((2 ^ (n - 1) / real n) ^ 2)"
    unfolding float_overflow_def eq a using sq by (simp only: not_le)
  show "\<not> float_overflow (2 ^ (n - 1) / real n)"
    unfolding float_overflow_def eq a using lin by (simp only: not_le)
qed

lemma large_overflow:
  assumes "523 \<le> n"
  shows "float_overflow ((2 ^ (n - 1) / real n) ^ 2)"
proof -
  obtain k where k: "n = Suc k" "522 \<le> k"
    using assms by (cases n) auto
  define c where "c = (2::real) ^ k / real (Suc k)"
  have low: "2 ^ 522 / real (Suc 522) \<le> c"
    unfolding c_def using k(2) by (rule correction_mono)
  have "(0::real) \<le> 2 ^ 522 / real (Suc 522)"
    by (intro divide_nonneg_nonneg zero_le_power) simp_all
  with low have "(2 ^ 522 / real (Suc 522)) ^ 2 \<le> c ^ 2"
    by (rule power_mono)
  with float_bound_523 have sq: "float_overflow_threshold \<le> c ^ 2"
    by (rule order_trans)
  have eq: "2 ^ (n - 1) / real n = c"
    unfolding c_def k(1) by simp
  have a: "\<bar>c ^ 2\<bar> = c ^ 2" by simp
  show ?thesis
    unfolding float_overflow_def eq a by (rule sq)
qed

lemma binomial_no_overflow:
  assumes "n \<le> 522"
  shows "\<not> float_overflow (real ((n - 1) choose k))"
proof -
  have "(n - 1) choose k \<le> 2 ^ (n - 1)"
    by (rule binomial_le_pow2)
  then have "real ((n - 1) choose k) \<le> real (2 ^ (n - 1))"
    by (simp only: of_nat_le_iff)
  also have "real (2 ^ (n - 1)) = 2 ^ (n - 1)" by simp
  also have "(2::real) ^ (n - 1) \<le> 2 ^ 970"
    using assms by (intro power_increasing) simp_all
  finally have "real ((n - 1) choose k) < float_overflow_threshold"
    using float_bound_pow by (rule le_less_trans)
  moreover have "\<bar>real ((n - 1) choose k)\<bar> = real ((n - 1) choose k)" by simp
  ultimately show ?thesis
    unfolding float_overflow_def by (simp only: not_le)
qed

subsection \<open>Combinatorial estimator: the worker\<close>

lemma choose_pos:
  assumes "idx < n" and "s \<subseteq> {..<n} - {idx}"
  shows "(n - 1) choose (card s) \<noteq> 0"
proof -
  have "card s \<le> card ({..<n} - {idx})"
    using assms(2) by (intro card_mono) auto
  also have "\<dots> = n - 1" using assms(1) by simp
  finally show ?thesis by simp
qed

lemma step_result:
  assumes "idx < n" and "wf_state n st" and "s \<subseteq> {..<n} - {idx}" and "n \<le> 522"
  shows "\<exists>st'. combinatorial_step acc u n idx st s = Inr st' \<and> wf_state n st' \<and>
           entry st' idx = accumulate acc (entry st idx) [weighted_marginal u n idx s] \<and>
           (\<forall>i. i \<noteq> idx \<longrightarrow> entry st' i = entry st i)"
  using assms(1,2,3) choose_pos [OF assms(1,3)] binomial_no_overflow [OF assms(4)]
  by (auto simp: combinatorial_step_def wf_state_def entry_def weighted_marginal_def Let_def
      Un_commute split: prod.splits)

lemma accumulate_append:
  "accumulate acc e (xs @ ys) = accumulate acc (accumulate acc e xs) ys"
  by (induction acc e xs rule: accumulate.induct) (auto split: prod.splits)

lemma accumulate_Cons:
  "accumulate acc e (x # xs) = accumulate acc (accumulate acc e [x]) xs"
  using accumulate_append [of acc e "[x]" xs] by (simp only: append_Cons append_Nil)

lemma inner_result:
  assumes "idx < n" and "wf_state n st" and "\<forall>s \<in> set ss. s \<subseteq> {..<n} - {idx}"
    and "n \<le> 522"
  shows "\<exists>st'. combinatorial_inner acc u n idx st ss = Inr st' \<and> wf_state n st' \<and>
           entry st' idx = accumulate acc (entry st idx) (map (weighted_marginal u n idx) ss) \<and>
           (\<forall>i. i \<noteq> idx \<longrightarrow> entry st' i = entry st i)"
  using assms(1,2,3)
proof (induction ss arbitrary: st)
  case Nil
  then show ?case by (cases "entry st idx") simp
next
  case (Cons s ss)
  from step_result [OF Cons.prems(1,2) _ assms(4), of s acc u] Cons.prems(3)
  obtain st1 where 1: "combinatorial_step acc u n idx st s = Inr st1" "wf_state n st1"
    "entry st1 idx = accumulate acc (entry st idx) [weighted_marginal u n idx s]"
    "\<forall>i. i \<noteq> idx \<longrightarrow> entry st1 i = entry st i"
    by auto
  from Cons.IH [OF Cons.prems(1) 1(2)] Cons.prems(3)
  obtain st' where 2: "combinatorial_inner acc u n idx st1 ss = Inr st'" "wf_state n st'"
    "entry st' idx = accumulate acc (entry st1 idx) (map (weighted_marginal u n idx) ss)"
    "\<forall>i. i \<noteq> idx \<longrightarrow> entry st' i = entry st1 i"
    by auto
  have "entry st' idx
          = accumulate acc (entry st idx) (map (weighted_marginal u n idx) (s # ss))"
    unfolding 2(3) 1(3) list.map
    by (rule accumulate_Cons [symmetric])
  then show ?case
    using 1 2 by simp
qed


lemma setxor_member: "idx < n \<Longrightarrow> np_setxor1d {..<n} idx = {..<n} - {idx}"
  by (auto simp: np_setxor1d_def)

lemma outer_result:
  assumes "distinct idxs" and "set idxs \<subseteq> {..<n}" and "wf_state n st"
    and "powerset_contract rp" and "n \<le> 522"
  shows "\<exists>st'. combinatorial_outer acc u n m rp k0 idxs st = Inr st' \<and> wf_state n st' \<and>
           (\<forall>j<length idxs. entry st' (idxs ! j)
              = accumulate acc (entry st (idxs ! j))
                  (map (weighted_marginal u n (idxs ! j))
                     (rp (k0 + j) ({..<n} - {idxs ! j}) m (1 / 2)))) \<and>
           (\<forall>i. i \<notin> set idxs \<longrightarrow> entry st' i = entry st i)"
  using assms(1,2,3)
proof (induction idxs arbitrary: k0 st)
  case Nil
  then show ?case by simp
next
  case (Cons idx rest)
  let ?ss = "rp k0 ({..<n} - {idx}) m (1 / 2)"
  have idx: "idx < n" and nin: "idx \<notin> set rest" and d: "distinct rest"
    and sub: "set rest \<subseteq> {..<n}"
    using Cons.prems by auto
  have "\<forall>s \<in> set ?ss. s \<subseteq> {..<n} - {idx}"
    using assms(4) by (simp add: powerset_contract_def)
  from inner_result [OF idx Cons.prems(3) this assms(5), of acc u]
  obtain st1 where 1: "combinatorial_inner acc u n idx st ?ss = Inr st1" "wf_state n st1"
    "entry st1 idx = accumulate acc (entry st idx) (map (weighted_marginal u n idx) ?ss)"
    "\<forall>i. i \<noteq> idx \<longrightarrow> entry st1 i = entry st i"
    by auto
  from Cons.IH [OF d sub 1(2), of "Suc k0"]
  obtain st' where 2: "combinatorial_outer acc u n m rp (Suc k0) rest st1 = Inr st'"
    "wf_state n st'"
    "\<forall>j<length rest. entry st' (rest ! j)
              = accumulate acc (entry st1 (rest ! j))
                  (map (weighted_marginal u n (rest ! j))
                     (rp (Suc k0 + j) ({..<n} - {rest ! j}) m (1 / 2)))"
    "\<forall>i. i \<notin> set rest \<longrightarrow> entry st' i = entry st1 i"
    by auto
  have run: "combinatorial_outer acc u n m rp k0 (idx # rest) st = Inr st'"
    using 1(1) 2(1) idx by (simp add: setxor_member)
  have pos: "entry st' ((idx # rest) ! j)
              = accumulate acc (entry st ((idx # rest) ! j))
                  (map (weighted_marginal u n ((idx # rest) ! j))
                     (rp (k0 + j) ({..<n} - {(idx # rest) ! j}) m (1 / 2)))"
    if "j < length (idx # rest)" for j
  proof (cases j)
    case 0
    then show ?thesis using 1(3) 2(4) nin by simp
  next
    case (Suc j')
    then have j': "j' < length rest" using that by simp
    then have "rest ! j' \<noteq> idx" using nin by auto
    then have "entry st1 (rest ! j') = entry st (rest ! j')" using 1(4) by simp
    then show ?thesis using 2(3) j' Suc by simp
  qed
  have other: "entry st' i = entry st i" if "i \<notin> set (idx # rest)" for i
    using that 1(4) 2(4) by simp
  show ?case
    using run 2(2) pos other by blast
qed


lemma unique_distinct: "length (np_unique xs) = length xs \<longleftrightarrow> distinct xs"
  by (metis np_unique_def length_sort length_remdups_eq remdups_id_iff_distinct)

lemma wf_init: "wf_state n (init_state n)"
  by (simp add: wf_state_def init_state_def)

lemma entry_init: "i < n \<Longrightarrow> entry (init_state n) i = (0, 0, 0)"
  by (simp add: entry_def init_state_def)

lemma worker_run:
  assumes "distinct indices" and "0 < n" and "n \<le> 522"
    and "combinatorial_outer acc u n m rp 0 indices (init_state n) = Inr st"
  shows "combinatorial_montecarlo_shapley_worker acc indices u n m rp
           = Inr (results_of n st, ws_trace st)"
  using assms small_no_overflow [OF assms(2,3)]
  by (simp add: combinatorial_montecarlo_shapley_worker_def unique_distinct results_of_def
      init_state_def Let_def)

lemma results_entry:
  assumes "wf_state n st" and "i < n" and "entry st i = (a, v, c)"
  shows "mc_values (results_of n st) ! i = (2 ^ (n - 1) / real n) * a"
    and "mc_stderr (results_of n st) ! i = sqrt ((2 ^ (n - 1) / real n) ^ 2 * v / max 1 c)"
    and "length (mc_values (results_of n st)) = n"
    and "length (mc_stderr (results_of n st)) = n"
  using assms by (simp_all add: results_of_def wf_state_def entry_def)


lemma worker_result:
  assumes "distinct idxs" and "set idxs \<subseteq> {..<n}" and "0 < n" and "powerset_contract rp"
    and "n \<le> 522"
  shows "\<exists>st. combinatorial_montecarlo_shapley_worker acc idxs u n m rp
                 = Inr (results_of n st, ws_trace st) \<and> wf_state n st \<and>
           (\<forall>j<length idxs. entry st (idxs ! j)
              = accumulate acc (0, 0, 0)
                  (map (weighted_marginal u n (idxs ! j)) (drawn rp n m idxs j))) \<and>
           (\<forall>i<n. i \<notin> set idxs \<longrightarrow> entry st i = (0, 0, 0))"
proof -
  from outer_result [OF assms(1,2) wf_init assms(4,5), of acc u m 0]
  obtain st where st: "combinatorial_outer acc u n m rp 0 idxs (init_state n) = Inr st"
    "wf_state n st"
    "\<forall>j<length idxs. entry st (idxs ! j)
              = accumulate acc (entry (init_state n) (idxs ! j))
                  (map (weighted_marginal u n (idxs ! j))
                     (rp (0 + j) ({..<n} - {idxs ! j}) m (1 / 2)))"
    "\<forall>i. i \<notin> set idxs \<longrightarrow> entry st i = entry (init_state n) i"
    by blast
  have "idxs ! j < n" if "j < length idxs" for j
    using assms(2) that by (auto simp: subset_iff)
  then have a: "\<forall>j<length idxs. entry st (idxs ! j)
              = accumulate acc (0, 0, 0)
                  (map (weighted_marginal u n (idxs ! j)) (drawn rp n m idxs j))"
    using st(3) by (simp add: entry_init drawn_def)
  have b: "\<forall>i<n. i \<notin> set idxs \<longrightarrow> entry st i = (0, 0, 0)"
    using st(4) by (simp add: entry_init)
  show ?thesis
    using worker_run [OF assms(1,3,5) st(1)] st(2) a b by blast
qed

lemma sqrt_scaled:
  assumes "0 \<le> (c::real)"
  shows "sqrt (c ^ 2 * v / d) = c * sqrt (v / d)"
proof -
  have "sqrt (c ^ 2 * v / d) = sqrt (c ^ 2 * (v / d))" by simp
  also have "\<dots> = sqrt (c ^ 2) * sqrt (v / d)" by (rule real_sqrt_mult)
  also have "\<dots> = c * sqrt (v / d)" using assms by simp
  finally show ?thesis .
qed


text \<open>For a dataset of 523 items or more the worker returns no result: whatever the
  loops did, \<^verbatim>\<open>correction**2\<close> raises OverflowError (if nothing was raised before).\<close>

lemma combinatorial_worker_overflow:
  assumes "523 \<le> n"
  shows "combinatorial_montecarlo_shapley_worker acc indices u n m rp \<noteq> Inr (r, trace)"
  using large_overflow [OF assms]
  by (auto simp: combinatorial_montecarlo_shapley_worker_def Let_def split: sum.splits)

lemma combinatorial_worker_overflow_523:
  "combinatorial_montecarlo_shapley_worker acc [] u 523 m rp = Inl (OverflowError, [])"
proof -
  have "(2::real) ^ 522 / real (Suc 522) \<le> 2 ^ 522 / 1"
    by (intro divide_left_mono) simp_all
  also have "\<dots> = 2 ^ 522" by simp
  also have "\<dots> \<le> (2::real) ^ 970"
    by (intro power_increasing) simp_all
  finally have "(2::real) ^ 522 / real (Suc 522) < float_overflow_threshold"
    using float_bound_pow by (rule le_less_trans)
  moreover have "\<bar>(2::real) ^ 522 / real (Suc 522)\<bar> = 2 ^ 522 / real (Suc 522)"
    by (intro abs_of_nonneg divide_nonneg_nonneg zero_le_power) simp_all
  ultimately have lo: "\<not> float_overflow (2 ^ 522 / real (Suc 522))"
    unfolding float_overflow_def by (simp only: not_le)
  have e: "(2::real) ^ (523 - 1) / real 523 = 2 ^ 522 / real (Suc 522)"
    by simp
  have 1: "\<not> float_overflow (2 ^ (523 - 1) / real 523)"
    unfolding e by (rule lo)
  have 2: "float_overflow ((2 ^ (523 - 1) / real 523) ^ 2)"
    by (rule large_overflow) simp
  have u: "length (np_unique []) = length ([] :: nat list)"
    by (simp add: np_unique_def)
  show ?thesis
    unfolding combinatorial_montecarlo_shapley_worker_def Let_def
    using 1 2 u by simp
qed

text \<open>From 1036 items on, the very computation of the correction raises, before any
  subset is drawn.\<close>

lemma combinatorial_worker_overflow_1036:
  assumes "distinct indices" and "1036 \<le> n"
  shows "combinatorial_montecarlo_shapley_worker acc indices u n m rp = Inl (OverflowError, [])"
proof -
  obtain k where k: "n = Suc k" "1035 \<le> k"
    using assms(2) by (cases n) auto
  define c where "c = (2::real) ^ k / real (Suc k)"
  have "(2::real) ^ 970 * (2 ^ 54 - 1) \<le> 2 ^ 1024"
    by (simp add: algebra_simps flip: power_add)
  also have "\<dots> \<le> 2 ^ 1024 * (2 ^ 11 / 1036)" by simp
  also have "\<dots> = 2 ^ 1035 / real (Suc 1035)"
    by (simp flip: power_add)
  also have "\<dots> \<le> c"
    unfolding c_def using k(2) by (rule correction_mono)
  finally have "float_overflow_threshold \<le> c"
    by (simp only: threshold_factored)
  moreover have "\<bar>c\<bar> = c" unfolding c_def by simp
  moreover have "2 ^ (n - 1) / real n = c" unfolding c_def k(1) by simp
  ultimately have "float_overflow (2 ^ (n - 1) / real n)"
    unfolding float_overflow_def by simp
  then show ?thesis
    using assms(1) k(1)
    by (simp add: combinatorial_montecarlo_shapley_worker_def unique_distinct)
qed

lemma step_error:
  "combinatorial_step acc u n idx st s = Inl (e, trace) \<Longrightarrow> e \<noteq> ValueError"
  by (auto simp: combinatorial_step_def Let_def split: if_splits prod.splits)

lemma inner_error:
  "combinatorial_inner acc u n idx st ss = Inl (e, trace) \<Longrightarrow> e \<noteq> ValueError"
  by (induction ss arbitrary: st) (auto split: sum.splits dest: step_error)

lemma outer_error:
  "combinatorial_outer acc u n m rp k idxs st = Inl (e, trace) \<Longrightarrow> e \<noteq> ValueError"
  by (induction idxs arbitrary: k st) (auto simp: Let_def split: sum.splits dest: inner_error)

text \<open>
  C4. Called with an index list that contains a duplicate, the worker
  \<^verbatim>\<open>_combinatorial_montecarlo_shapley\<close> raises ValueError with an empty trace: no subset
  was sampled and the utility was not called. Called with a duplicate-free index list, it
  never raises ValueError.
\<close>

theorem combinatorial_duplicates_rejected:
  "(\<not> distinct indices \<longrightarrow>
      combinatorial_montecarlo_shapley_worker acc indices u n m rp = Inl (ValueError, [])) \<and>
   (distinct indices \<longrightarrow>
      (\<forall>trace. combinatorial_montecarlo_shapley_worker acc indices u n m rp
                 \<noteq> Inl (ValueError, trace)))"
proof (intro conjI impI allI)
  assume "\<not> distinct indices"
  then show "combinatorial_montecarlo_shapley_worker acc indices u n m rp = Inl (ValueError, [])"
    by (simp add: combinatorial_montecarlo_shapley_worker_def unique_distinct)
next
  fix trace
  assume "distinct indices"
  then show "combinatorial_montecarlo_shapley_worker acc indices u n m rp
               \<noteq> Inl (ValueError, trace)"
    by (auto simp: combinatorial_montecarlo_shapley_worker_def unique_distinct Let_def
        split: sum.splits dest: outer_error)
qed



theorem combinatorial_duplicates_rejected_witness:
  "\<not> distinct [0, 0 :: nat] \<and> distinct [0, 1 :: nat] \<and>
   combinatorial_montecarlo_shapley_worker welford [0, 0] size_utility 2 1 whole_set_tape
     = Inl (ValueError, []) \<and>
   combinatorial_montecarlo_shapley_worker welford [0, 1] size_utility 2 1 whole_set_tape
     \<noteq> Inl (ValueError, [])"
  using combinatorial_duplicates_rejected [of "[0, 0]" welford size_utility 2 1 whole_set_tape]
    combinatorial_duplicates_rejected [of "[0, 1]" welford size_utility 2 1 whole_set_tape]
  by simp

subsection \<open>Combinatorial estimator: the reducer\<close>

lemma map2_zero_left: "length v = n \<Longrightarrow> map2 (+) (replicate n (0::real)) v = v"
  by (rule nth_equalityI) auto

lemma iadd_zero: "length v = n \<Longrightarrow> np_iadd (replicate n 0) v = Inr v"
  by (simp add: np_iadd_def map2_zero_left)

lemma iadd_same: "length v = length w \<Longrightarrow> np_iadd v w = Inr (map2 (+) v w)"
  by (simp add: np_iadd_def)

lemma reducer_two:
  assumes "length (mc_values r1) = n" and "length (mc_stderr r1) = n"
    and "length (mc_values r2) = n" and "length (mc_stderr r2) = n"
  shows "combinatorial_reducer n [r1, r2]
           = Inr \<lparr>mc_values = map2 (+) (mc_values r1) (mc_values r2),
                  mc_stderr = map2 (+) (mc_stderr r1) (mc_stderr r2),
                  mc_n_samples = None\<rparr>"
  using assms by (simp add: combinatorial_reducer_def iadd_same map2_zero_left)

lemma disjoint_sum:
  assumes "length v = n" and "length w = n" and "support v \<inter> support w = {}" and "i < n"
  shows "map2 (+) v w ! i = (if i \<in> support v then v ! i else w ! i)"
proof (cases "i \<in> support v")
  case True
  then have "i \<notin> support w" using assms(3) by auto
  then have "w ! i = 0" using assms(2,4) by (simp add: support_def)
  then show ?thesis using True assms by simp
next
  case False
  then have "v ! i = 0" using assms(1,4) by (simp add: support_def)
  then show ?thesis using False assms by simp
qed

lemma support_results:
  assumes "wf_state n st" and "\<forall>i<n. i \<notin> A \<longrightarrow> entry st i = (0, 0, 0)"
  shows "support (mc_values (results_of n st)) \<subseteq> A"
    and "support (mc_stderr (results_of n st)) \<subseteq> A"
proof -
  have "mc_values (results_of n st) ! i = 0 \<and> mc_stderr (results_of n st) ! i = 0"
    if "i < n" "i \<notin> A" for i
  proof -
    have e: "entry st i = (0, 0, 0)" using assms(2) that by simp
    show ?thesis
      using results_entry(1,2) [OF assms(1) that(1) e] by simp
  qed
  note z = this
  have lv: "length (mc_values (results_of n st)) = n"
    and ls: "length (mc_stderr (results_of n st)) = n"
    using assms(1) by (simp_all add: results_of_def wf_state_def)
  show "support (mc_values (results_of n st)) \<subseteq> A"
    unfolding support_def lv using z by blast
  show "support (mc_stderr (results_of n st)) \<subseteq> A"
    unfolding support_def ls using z by blast
qed


lemma results_sum:
  assumes "wf_state n stA" and "wf_state n stB" and "wf_state n stAB"
    and "\<forall>i<n. (entry stAB i = entry stA i \<and> entry stB i = (0, 0, 0)) \<or>
                (entry stAB i = entry stB i \<and> entry stA i = (0, 0, 0))"
  shows "results_of n stAB
           = \<lparr>mc_values = map2 (+) (mc_values (results_of n stA)) (mc_values (results_of n stB)),
              mc_stderr = map2 (+) (mc_stderr (results_of n stA)) (mc_stderr (results_of n stB)),
              mc_n_samples = None\<rparr>"
proof -
  have pt: "mc_values (results_of n stAB) ! i
              = mc_values (results_of n stA) ! i + mc_values (results_of n stB) ! i \<and>
            mc_stderr (results_of n stAB) ! i
              = mc_stderr (results_of n stA) ! i + mc_stderr (results_of n stB) ! i"
    if i: "i < n" for i
  proof -
    obtain a v c where e: "entry stAB i = (a, v, c)" by (cases "entry stAB i")
    from assms(4) i
    consider "entry stA i = (a, v, c)" "entry stB i = (0, 0, 0)"
      | "entry stB i = (a, v, c)" "entry stA i = (0, 0, 0)"
      using e by auto
    then show ?thesis
    proof cases
      case 1
      show ?thesis
        using results_entry(1,2) [OF assms(3) i e] results_entry(1,2) [OF assms(1) i 1(1)]
          results_entry(1,2) [OF assms(2) i 1(2)] by simp
    next
      case 2
      show ?thesis
        using results_entry(1,2) [OF assms(3) i e] results_entry(1,2) [OF assms(2) i 2(1)]
          results_entry(1,2) [OF assms(1) i 2(2)] by simp
    qed
  qed
  have l: "length (mc_values (results_of n st)) = n \<and> length (mc_stderr (results_of n st)) = n"
    if "wf_state n st" for st
    using that by (simp add: results_of_def wf_state_def)
  have v: "mc_values (results_of n stAB)
             = map2 (+) (mc_values (results_of n stA)) (mc_values (results_of n stB))"
    using l [OF assms(1)] l [OF assms(2)] l [OF assms(3)] pt
    by (intro nth_equalityI) auto
  have s: "mc_stderr (results_of n stAB)
             = map2 (+) (mc_stderr (results_of n stA)) (mc_stderr (results_of n stB))"
    using l [OF assms(1)] l [OF assms(2)] l [OF assms(3)] pt
    by (intro nth_equalityI) auto
  have "mc_n_samples (results_of n stAB) = None"
    by (simp add: results_of_def)
  then show ?thesis
    using v s by (cases "results_of n stAB") simp
qed

lemma contract_join:
  "powerset_contract ta \<Longrightarrow> powerset_contract tb \<Longrightarrow> powerset_contract (join_tapes k ta tb)"
  by (simp add: powerset_contract_def join_tapes_def)

lemma drawn_join:
  "drawn (join_tapes (length A) ta tb) n m (A @ B) j
     = (if j < length A then drawn ta n m A j else drawn tb n m B (j - length A))"
  by (simp add: drawn_def join_tapes_def nth_append)

lemma two_workers:
  assumes "distinct (A @ B)" and "set (A @ B) \<subseteq> {..<n}" and "0 < n"
    and "powerset_contract ta" and "powerset_contract tb" and "n \<le> 522"
  shows "\<exists>ra rb tra trb rab trab.
           combinatorial_montecarlo_shapley_worker acc A u n m ta = Inr (ra, tra) \<and>
           combinatorial_montecarlo_shapley_worker acc B u n m tb = Inr (rb, trb) \<and>
           length (mc_values ra) = n \<and> length (mc_stderr ra) = n \<and>
           length (mc_values rb) = n \<and> length (mc_stderr rb) = n \<and>
           support (mc_values ra) \<subseteq> set A \<and> support (mc_stderr ra) \<subseteq> set A \<and>
           support (mc_values rb) \<subseteq> set B \<and> support (mc_stderr rb) \<subseteq> set B \<and>
           combinatorial_montecarlo_shapley_worker acc (A @ B) u n m
             (join_tapes (length A) ta tb) = Inr (rab, trab) \<and>
           combinatorial_reducer n [ra, rb] = Inr rab"
proof -
  have dA: "distinct A" and dB: "distinct B" and sA: "set A \<subseteq> {..<n}"
    and sB: "set B \<subseteq> {..<n}" and dis: "set A \<inter> set B = {}"
    using assms(1,2) by auto
  from worker_result [OF dA sA assms(3,4,6), of acc u m]
  obtain stA where A: "combinatorial_montecarlo_shapley_worker acc A u n m ta
                 = Inr (results_of n stA, ws_trace stA)" "wf_state n stA"
    "\<forall>j<length A. entry stA (A ! j)
        = accumulate acc (0, 0, 0) (map (weighted_marginal u n (A ! j)) (drawn ta n m A j))"
    "\<forall>i<n. i \<notin> set A \<longrightarrow> entry stA i = (0, 0, 0)"
    by blast
  from worker_result [OF dB sB assms(3,5,6), of acc u m]
  obtain stB where B: "combinatorial_montecarlo_shapley_worker acc B u n m tb
                 = Inr (results_of n stB, ws_trace stB)" "wf_state n stB"
    "\<forall>j<length B. entry stB (B ! j)
        = accumulate acc (0, 0, 0) (map (weighted_marginal u n (B ! j)) (drawn tb n m B j))"
    "\<forall>i<n. i \<notin> set B \<longrightarrow> entry stB i = (0, 0, 0)"
    by blast
  let ?t = "join_tapes (length A) ta tb"
  from worker_result [OF assms(1,2,3) contract_join [OF assms(4,5)] assms(6), of acc u m "length A"]
  obtain stAB where AB: "combinatorial_montecarlo_shapley_worker acc (A @ B) u n m ?t
                 = Inr (results_of n stAB, ws_trace stAB)" "wf_state n stAB"
    "\<forall>j<length (A @ B). entry stAB ((A @ B) ! j)
        = accumulate acc (0, 0, 0)
            (map (weighted_marginal u n ((A @ B) ! j)) (drawn ?t n m (A @ B) j))"
    "\<forall>i<n. i \<notin> set (A @ B) \<longrightarrow> entry stAB i = (0, 0, 0)"
    by blast
  have rel: "(entry stAB i = entry stA i \<and> entry stB i = (0, 0, 0)) \<or>
             (entry stAB i = entry stB i \<and> entry stA i = (0, 0, 0))" if i: "i < n" for i
  proof -
    consider "i \<in> set A" | "i \<in> set B" | "i \<notin> set A" "i \<notin> set B" by blast
    then show ?thesis
    proof cases
      case 1
      then obtain j where j: "j < length A" "A ! j = i" by (auto simp: in_set_conv_nth)
      have "entry stAB ((A @ B) ! j) = entry stA (A ! j)"
        using AB(3) [rule_format, of j] A(3) [rule_format, of j] j(1)
        by (simp add: drawn_join nth_append)
      moreover have "entry stB i = (0, 0, 0)" using B(4) i 1 dis by auto
      ultimately show ?thesis using j by (simp add: nth_append)
    next
      case 2
      then obtain j where j: "j < length B" "B ! j = i" by (auto simp: in_set_conv_nth)
      have "entry stAB ((A @ B) ! (length A + j)) = entry stB (B ! j)"
        using AB(3) [rule_format, of "length A + j"] B(3) [rule_format, of j] j(1)
        by (simp add: drawn_join nth_append)
      moreover have "entry stA i = (0, 0, 0)" using A(4) i 2 dis by auto
      ultimately show ?thesis using j by (simp add: nth_append)
    next
      case 3
      then show ?thesis using A(4) B(4) AB(4) i by simp
    qed
  qed
  have sum: "results_of n stAB
           = \<lparr>mc_values = map2 (+) (mc_values (results_of n stA)) (mc_values (results_of n stB)),
              mc_stderr = map2 (+) (mc_stderr (results_of n stA)) (mc_stderr (results_of n stB)),
              mc_n_samples = None\<rparr>"
    using results_sum [OF A(2) B(2) AB(2)] rel by blast
  have l: "length (mc_values (results_of n st)) = n \<and> length (mc_stderr (results_of n st)) = n"
    if "wf_state n st" for st
    using that by (simp add: results_of_def wf_state_def)
  have red: "combinatorial_reducer n [results_of n stA, results_of n stB]
               = Inr (results_of n stAB)"
    using reducer_two [of "results_of n stA" n "results_of n stB"] l [OF A(2)] l [OF B(2)]
    by (simp only: sum)
  show ?thesis
    using A(1) B(1) AB(1) red l [OF A(2)] l [OF B(2)]
      support_results [OF A(2) A(4)] support_results [OF B(2) B(4)]
    by blast
qed


lemma distinct_count_list: "distinct xs \<longleftrightarrow> (\<forall>a. count_list xs a \<le> 1)"
proof (induction xs)
  case Nil
  then show ?case by simp
next
  case (Cons x xs)
  show ?case
  proof
    assume d: "distinct (x # xs)"
    then have "count_list xs x = 0" by simp
    moreover have "\<forall>a. count_list xs a \<le> 1" using d Cons.IH by simp
    ultimately show "\<forall>a. count_list (x # xs) a \<le> 1" by simp
  next
    assume c: "\<forall>a. count_list (x # xs) a \<le> 1"
    then have "count_list (x # xs) x \<le> 1" by blast
    then have "x \<notin> set xs" by (simp add: count_list_0_iff)
    moreover have "count_list xs a \<le> 1" for a
      using c [rule_format, of a] by (simp split: if_splits)
    ultimately show "distinct (x # xs)" using Cons.IH by simp
  qed
qed

lemma chunking_distinct:
  assumes "is_chunking [0..<n] chunks"
  shows "distinct (concat chunks)" and "set (concat chunks) = {..<n}"
proof -
  have c: "count_list (concat chunks) x = count_list [0..<n] x" for x
    using assms by (simp add: is_chunking_def)
  have m: "x \<in> set (concat chunks) \<longleftrightarrow> x \<in> set [0..<n]" for x
    by (metis c count_list_0_iff)
  then show "set (concat chunks) = {..<n}" by auto
  have "distinct [0..<n]" by simp
  then have "\<forall>a. count_list [0..<n] a \<le> 1"
    using distinct_count_list [of "[0..<n]"] by blast
  then have "\<forall>a. count_list (concat chunks) a \<le> 1"
    by (simp add: c)
  then show "distinct (concat chunks)"
    using distinct_count_list [of "concat chunks"] by blast
qed

lemma distinct_concat_nth:
  "distinct (concat xss) \<Longrightarrow> a < b \<Longrightarrow> b < length xss \<Longrightarrow> distinct (xss ! a @ xss ! b)"
proof (induction xss arbitrary: a b)
  case Nil
  then show ?case by simp
next
  case (Cons x rest)
  obtain b' where b: "b = Suc b'" "b' < length rest"
    using Cons.prems(2,3) by (cases b) auto
  have dr: "distinct (concat rest)" using Cons.prems(1) by simp
  show ?case
  proof (cases a)
    case 0
    have "rest ! b' \<in> set rest" using b(2) by simp
    then have sub: "set (rest ! b') \<subseteq> set (concat rest)" by auto
    have "distinct (rest ! b')"
      using dr \<open>rest ! b' \<in> set rest\<close> by (simp add: distinct_concat_iff)
    then show ?thesis using Cons.prems(1) sub 0 b by auto
  next
    case (Suc a')
    then have "a' < b'" using Cons.prems(2) b by simp
    from Cons.IH [OF dr this b(2)] show ?thesis using Suc b by simp
  qed
qed

lemma set_nth_concat:
  assumes "a < length xss"
  shows "set (xss ! a) \<subseteq> set (concat xss)"
proof -
  have "xss ! a \<in> set xss" using assms by simp
  then show ?thesis by auto
qed

lemma reducer_pair:
  assumes "length (mc_values r1) = n \<and> length (mc_stderr r1) = n \<and>
           length (mc_values r2) = n \<and> length (mc_stderr r2) = n \<and>
           support (mc_values r1) \<inter> support (mc_values r2) = {} \<and>
           support (mc_stderr r1) \<inter> support (mc_stderr r2) = {}"
  shows "\<exists>r. combinatorial_reducer n [r1, r2] = Inr r \<and>
           mc_values r = map2 (+) (mc_values r1) (mc_values r2) \<and>
           mc_stderr r = map2 (+) (mc_stderr r1) (mc_stderr r2) \<and>
           (\<forall>i<n. mc_values r ! i
                     = (if i \<in> support (mc_values r1) then mc_values r1 ! i
                        else mc_values r2 ! i) \<and>
                   mc_stderr r ! i
                     = (if i \<in> support (mc_stderr r1) then mc_stderr r1 ! i
                        else mc_stderr r2 ! i))"
proof -
  note h = assms
  let ?r = "\<lparr>mc_values = map2 (+) (mc_values r1) (mc_values r2),
             mc_stderr = map2 (+) (mc_stderr r1) (mc_stderr r2),
             mc_n_samples = None\<rparr>"
  have red: "combinatorial_reducer n [r1, r2] = Inr ?r"
    using h by (intro reducer_two) simp_all
  have "mc_values ?r ! i
          = (if i \<in> support (mc_values r1) then mc_values r1 ! i else mc_values r2 ! i) \<and>
        mc_stderr ?r ! i
          = (if i \<in> support (mc_stderr r1) then mc_stderr r1 ! i else mc_stderr r2 ! i)"
    if "i < n" for i
    using h that disjoint_sum [of "mc_values r1" n "mc_values r2" i]
      disjoint_sum [of "mc_stderr r1" n "mc_stderr r2" i]
    by simp
  then show ?thesis
    using red by (intro exI [of _ ?r]) simp
qed

lemma chunk_sets:
  assumes "is_chunking [0..<n] chunks" and "a < length chunks"
  shows "distinct (chunks ! a)" and "set (chunks ! a) \<subseteq> {..<n}"
    and "b < length chunks \<Longrightarrow> a \<noteq> b \<Longrightarrow> set (chunks ! a) \<inter> set (chunks ! b) = {}"
proof -
  have ma: "chunks ! a \<in> set chunks" using assms(2) by simp
  show "distinct (chunks ! a)"
    using chunking_distinct(1) [OF assms(1)] ma by (simp add: distinct_concat_iff)
  show "set (chunks ! a) \<subseteq> {..<n}"
    using set_nth_concat [OF assms(2)] chunking_distinct(2) [OF assms(1)] by simp
  show "set (chunks ! a) \<inter> set (chunks ! b) = {}" if "b < length chunks" "a \<noteq> b"
  proof (cases "a < b")
    case True
    from distinct_concat_nth [OF chunking_distinct(1) [OF assms(1)] True that(1)]
    show ?thesis by auto
  next
    case False
    then have "b < a" using that(2) by simp
    from distinct_concat_nth [OF chunking_distinct(1) [OF assms(1)] this assms(2)]
    show ?thesis by auto
  qed
qed

lemma chunk_pair:
  assumes "0 < n" and "n \<le> 522" and "is_chunking [0..<n] chunks"
    and "\<forall>job. powerset_contract (tapes job)" and "a < b \<and> b < length chunks"
  shows "\<exists>ra rb tra trb rab trab.
           combinatorial_montecarlo_shapley_worker acc (chunks ! a) u n m (tapes a)
             = Inr (ra, tra) \<and>
           combinatorial_montecarlo_shapley_worker acc (chunks ! b) u n m (tapes b)
             = Inr (rb, trb) \<and>
           support (mc_values ra) \<subseteq> set (chunks ! a) \<and>
           support (mc_stderr ra) \<subseteq> set (chunks ! a) \<and>
           support (mc_values rb) \<subseteq> set (chunks ! b) \<and>
           support (mc_stderr rb) \<subseteq> set (chunks ! b) \<and>
           set (chunks ! a) \<inter> set (chunks ! b) = {} \<and>
           support (mc_values ra) \<inter> support (mc_values rb) = {} \<and>
           support (mc_stderr ra) \<inter> support (mc_stderr rb) = {} \<and>
           combinatorial_montecarlo_shapley_worker acc (chunks ! a @ chunks ! b) u n m
             (join_tapes (length (chunks ! a)) (tapes a) (tapes b)) = Inr (rab, trab) \<and>
           combinatorial_reducer n [ra, rb] = Inr rab"
proof -
  note ab = assms(5)
  let ?A = "chunks ! a" and ?B = "chunks ! b"
  have d: "distinct (?A @ ?B)"
    using chunking_distinct(1) [OF assms(3)] ab by (intro distinct_concat_nth) simp_all
  have "set ?A \<subseteq> {..<n}" "set ?B \<subseteq> {..<n}"
    using set_nth_concat [of a chunks] set_nth_concat [of b chunks]
      chunking_distinct(2) [OF assms(3)] ab by auto
  then have s: "set (?A @ ?B) \<subseteq> {..<n}" by simp
  have dis: "set ?A \<inter> set ?B = {}" using d by auto
  have ca: "powerset_contract (tapes a)" and cb: "powerset_contract (tapes b)"
    using assms(4) by simp_all
  from two_workers [OF d s assms(1) ca cb assms(2), of acc u m]
  obtain ra rb tra trb rab trab where w:
    "combinatorial_montecarlo_shapley_worker acc ?A u n m (tapes a) = Inr (ra, tra)"
    "combinatorial_montecarlo_shapley_worker acc ?B u n m (tapes b) = Inr (rb, trb)"
    "support (mc_values ra) \<subseteq> set ?A" "support (mc_stderr ra) \<subseteq> set ?A"
    "support (mc_values rb) \<subseteq> set ?B" "support (mc_stderr rb) \<subseteq> set ?B"
    "combinatorial_montecarlo_shapley_worker acc (?A @ ?B) u n m
       (join_tapes (length ?A) (tapes a) (tapes b)) = Inr (rab, trab)"
    "combinatorial_reducer n [ra, rb] = Inr rab"
    by blast
  have "support (mc_values ra) \<inter> support (mc_values rb) = {}"
    and "support (mc_stderr ra) \<inter> support (mc_stderr rb) = {}"
    using w(3-6) dis by blast+
  then show ?thesis
    using w dis by blast
qed

lemma reducer_loop_result:
  assumes "\<forall>r \<in> set rs. length (mc_values r) = length vs \<and> length (mc_stderr r) = length ss"
  shows "combinatorial_reducer_loop (vs, ss) rs
           = Inr (map (\<lambda>i. vs ! i + (\<Sum>r\<leftarrow>rs. mc_values r ! i)) [0..<length vs],
                  map (\<lambda>i. ss ! i + (\<Sum>r\<leftarrow>rs. mc_stderr r ! i)) [0..<length ss])"
  using assms
proof (induction rs arbitrary: vs ss)
  case Nil
  then show ?case by (simp add: map_nth)
next
  case (Cons r rs)
  let ?vs' = "map2 (+) vs (mc_values r)" and ?ss' = "map2 (+) ss (mc_stderr r)"
  have l: "length (mc_values r) = length vs" "length (mc_stderr r) = length ss"
    and l': "length ?vs' = length vs" "length ?ss' = length ss"
    using Cons.prems by simp_all
  have run: "combinatorial_reducer_loop (vs, ss) (r # rs)
               = combinatorial_reducer_loop (?vs', ?ss') rs"
    using l by (simp add: iadd_same)
  have "\<forall>r \<in> set rs. length (mc_values r) = length ?vs' \<and> length (mc_stderr r) = length ?ss'"
    using Cons.prems l' by simp
  from Cons.IH [OF this]
  have "combinatorial_reducer_loop (?vs', ?ss') rs
          = Inr (map (\<lambda>i. ?vs' ! i + (\<Sum>r\<leftarrow>rs. mc_values r ! i)) [0..<length vs],
                 map (\<lambda>i. ?ss' ! i + (\<Sum>r\<leftarrow>rs. mc_stderr r ! i)) [0..<length ss])"
    using l' by simp
  moreover have "map (\<lambda>i. ?vs' ! i + (\<Sum>r\<leftarrow>rs. mc_values r ! i)) [0..<length vs]
                   = map (\<lambda>i. vs ! i + (\<Sum>r\<leftarrow>r # rs. mc_values r ! i)) [0..<length vs]"
    using l by (intro map_cong) auto
  moreover have "map (\<lambda>i. ?ss' ! i + (\<Sum>r\<leftarrow>rs. mc_stderr r ! i)) [0..<length ss]
                   = map (\<lambda>i. ss ! i + (\<Sum>r\<leftarrow>r # rs. mc_stderr r ! i)) [0..<length ss]"
    using l by (intro map_cong) auto
  ultimately show ?case
    unfolding run by simp
qed

lemma reducer_sum:
  assumes "\<forall>r \<in> set rs. length (mc_values r) = n \<and> length (mc_stderr r) = n"
  shows "combinatorial_reducer n rs
           = Inr \<lparr>mc_values = map (\<lambda>i. \<Sum>r\<leftarrow>rs. mc_values r ! i) [0..<n],
                  mc_stderr = map (\<lambda>i. \<Sum>r\<leftarrow>rs. mc_stderr r ! i) [0..<n],
                  mc_n_samples = None\<rparr>"
proof -
  have "\<forall>r \<in> set rs. length (mc_values r) = length (replicate n (0::real)) \<and>
          length (mc_stderr r) = length (replicate n (0::real))"
    using assms by simp
  from reducer_loop_result [OF this] show ?thesis
    by (simp add: combinatorial_reducer_def)
qed

lemma sum_list_single:
  assumes "job < K" and "\<forall>j<K. j \<noteq> job \<longrightarrow> f j = (0::real)"
  shows "(\<Sum>j\<leftarrow>[0..<K]. f j) = f job"
proof -
  have "(\<Sum>j\<leftarrow>[0..<K]. f j) = sum f (set [0..<K])"
    by (rule interv_sum_list_conv_sum_set_nat)
  also have "\<dots> = sum f {job}"
    using assms by (intro sum.mono_neutral_right) auto
  finally show ?thesis by simp
qed

lemma job_result:
  assumes "0 < n" and "n \<le> 522" and "is_chunking [0..<n] chunks"
    and "\<forall>job. powerset_contract (tapes job)"
  shows "\<exists>rs vs stderr.
           length rs = length chunks \<and>
           (\<forall>job<length chunks.
              (\<exists>trace. combinatorial_montecarlo_shapley_worker acc (chunks ! job) u n m
                          (tapes job) = Inr (rs ! job, trace)) \<and>
              support (mc_values (rs ! job)) \<subseteq> set (chunks ! job) \<and>
              support (mc_stderr (rs ! job)) \<subseteq> set (chunks ! job)) \<and>
           combinatorial_montecarlo_shapley acc u n m chunks tapes = Inr (vs, stderr) \<and>
           length vs = n \<and> length stderr = n \<and>
           (\<forall>job<length chunks. \<forall>i \<in> set (chunks ! job).
              vs ! i = mc_values (rs ! job) ! i \<and> stderr ! i = mc_stderr (rs ! job) ! i)"
proof -
  let ?K = "length chunks"
  define w where "w job = combinatorial_montecarlo_shapley_worker acc (chunks ! job) u n m
                            (tapes job)" for job
  define r where "r job = fst (projr (w job))" for job
  have wr: "\<exists>trace. w job = Inr (r job, trace)"
    and lv: "length (mc_values (r job)) = n" and ls: "length (mc_stderr (r job)) = n"
    and sv: "support (mc_values (r job)) \<subseteq> set (chunks ! job)"
    and ss: "support (mc_stderr (r job)) \<subseteq> set (chunks ! job)"
    if job: "job < ?K" for job
  proof -
    have c: "powerset_contract (tapes job)" using assms(4) by simp
    from worker_result [OF chunk_sets(1,2) [OF assms(3) job] assms(1) c assms(2), of acc u m]
    obtain st where st: "w job = Inr (results_of n st, ws_trace st)" "wf_state n st"
      "\<forall>i<n. i \<notin> set (chunks ! job) \<longrightarrow> entry st i = (0, 0, 0)"
      unfolding w_def by blast
    then have e: "r job = results_of n st" by (simp add: r_def)
    show "\<exists>trace. w job = Inr (r job, trace)" using st(1) e by simp
    show "length (mc_values (r job)) = n" "length (mc_stderr (r job)) = n"
      using st(2) by (simp_all add: e results_of_def wf_state_def)
    show "support (mc_values (r job)) \<subseteq> set (chunks ! job)"
      and "support (mc_stderr (r job)) \<subseteq> set (chunks ! job)"
      unfolding e using support_results [OF st(2,3)] by simp_all
  qed
  let ?rs = "map r [0..<?K]"
  have out: "job_outcome (w job) = Inr (r job)" if "job < ?K" for job
    using wr [OF that] by (auto simp: job_outcome_def)
  have job: "map_reduce_job
               (\<lambda>job indices. job_outcome
                  (combinatorial_montecarlo_shapley_worker acc indices u n m (tapes job)))
               (combinatorial_reducer n) chunks
             = combinatorial_reducer n ?rs"
    using out by (intro map_reduce_job_Inr) (simp add: w_def)
  have "\<forall>x \<in> set ?rs. length (mc_values x) = n \<and> length (mc_stderr x) = n"
    using lv ls by auto
  note red = reducer_sum [OF this]
  let ?vs = "map (\<lambda>i. \<Sum>x\<leftarrow>?rs. mc_values x ! i) [0..<n]"
  let ?se = "map (\<lambda>i. \<Sum>x\<leftarrow>?rs. mc_stderr x ! i) [0..<n]"
  have fn: "combinatorial_montecarlo_shapley acc u n m chunks tapes = Inr (?vs, ?se)"
    unfolding combinatorial_montecarlo_shapley_def job red by simp
  have pt: "?vs ! i = mc_values (r job) ! i \<and> ?se ! i = mc_stderr (r job) ! i"
    if job: "job < ?K" and i: "i \<in> set (chunks ! job)" for job i
  proof -
    have "i < n" using chunk_sets(2) [OF assms(3) job] i by auto
    have z: "mc_values (r j) ! i = 0 \<and> mc_stderr (r j) ! i = 0" if "j < ?K" "j \<noteq> job" for j
    proof -
      have "i \<notin> set (chunks ! j)"
        using chunk_sets(3) [OF assms(3) job that(1)] that(2) i by auto
      then have "i \<notin> support (mc_values (r j))" "i \<notin> support (mc_stderr (r j))"
        using sv [OF that(1)] ss [OF that(1)] by auto
      then show ?thesis
        using \<open>i < n\<close> lv [OF that(1)] ls [OF that(1)] by (simp add: support_def)
    qed
    have "(\<Sum>x\<leftarrow>?rs. mc_values x ! i) = (\<Sum>j\<leftarrow>[0..<?K]. mc_values (r j) ! i)"
      by (simp add: comp_def)
    also have "\<dots> = mc_values (r job) ! i"
      using job z by (intro sum_list_single) simp_all
    finally have 1: "(\<Sum>x\<leftarrow>?rs. mc_values x ! i) = mc_values (r job) ! i" .
    have "(\<Sum>x\<leftarrow>?rs. mc_stderr x ! i) = (\<Sum>j\<leftarrow>[0..<?K]. mc_stderr (r j) ! i)"
      by (simp add: comp_def)
    also have "\<dots> = mc_stderr (r job) ! i"
      using job z by (intro sum_list_single) simp_all
    finally have 2: "(\<Sum>x\<leftarrow>?rs. mc_stderr x ! i) = mc_stderr (r job) ! i" .
    show ?thesis using 1 2 \<open>i < n\<close> by simp
  qed
  have a: "\<forall>job<?K.
              (\<exists>trace. combinatorial_montecarlo_shapley_worker acc (chunks ! job) u n m
                          (tapes job) = Inr (?rs ! job, trace)) \<and>
              support (mc_values (?rs ! job)) \<subseteq> set (chunks ! job) \<and>
              support (mc_stderr (?rs ! job)) \<subseteq> set (chunks ! job)"
    using wr sv ss by (simp add: w_def)
  have b: "\<forall>job<?K. \<forall>i \<in> set (chunks ! job).
              ?vs ! i = mc_values (?rs ! job) ! i \<and> ?se ! i = mc_stderr (?rs ! job) ! i"
    using pt by simp
  show ?thesis
    by (rule exI [of _ ?rs], rule exI [of _ ?vs], rule exI [of _ ?se])
       (use a b fn in simp)
qed

text \<open>
  C8. The reducer of the combinatorial estimator adds two results element by element;
  when their values and standard errors have disjoint non-zero support, every entry of
  the sum is the entry of the one result that is non-zero there. The job of
  \<^verbatim>\<open>combinatorial_montecarlo_shapley\<close> gives each worker one chunk of the index
  vector, distinct items go to distinct workers, so the result of each worker has its
  support inside the worker's chunk, the results of two workers have disjoint support,
  and the function returns for every item the entry computed by the one worker that had
  the item; the sum of the results of two workers is exactly the result of one worker
  run on both chunks with the same draws. (For a dataset of at most 522 items: for a
  larger one the workers raise OverflowError.)
\<close>

theorem combinatorial_reducer_disjoint_support:
  assumes "0 < n" and "n \<le> 522" and "is_chunking [0..<n] chunks"
    and "\<forall>job. powerset_contract (tapes job)"
  shows "(\<forall>r1 r2.
            length (mc_values r1) = n \<and> length (mc_stderr r1) = n \<and>
            length (mc_values r2) = n \<and> length (mc_stderr r2) = n \<and>
            support (mc_values r1) \<inter> support (mc_values r2) = {} \<and>
            support (mc_stderr r1) \<inter> support (mc_stderr r2) = {} \<longrightarrow>
            (\<exists>r. combinatorial_reducer n [r1, r2] = Inr r \<and>
               mc_values r = map2 (+) (mc_values r1) (mc_values r2) \<and>
               mc_stderr r = map2 (+) (mc_stderr r1) (mc_stderr r2) \<and>
               (\<forall>i<n. mc_values r ! i
                         = (if i \<in> support (mc_values r1) then mc_values r1 ! i
                            else mc_values r2 ! i) \<and>
                       mc_stderr r ! i
                         = (if i \<in> support (mc_stderr r1) then mc_stderr r1 ! i
                            else mc_stderr r2 ! i)))) \<and>
         (\<exists>rs vs stderr.
            length rs = length chunks \<and>
            (\<forall>job<length chunks.
               (\<exists>trace. combinatorial_montecarlo_shapley_worker acc (chunks ! job) u n m
                           (tapes job) = Inr (rs ! job, trace)) \<and>
               support (mc_values (rs ! job)) \<subseteq> set (chunks ! job) \<and>
               support (mc_stderr (rs ! job)) \<subseteq> set (chunks ! job)) \<and>
            combinatorial_montecarlo_shapley acc u n m chunks tapes = Inr (vs, stderr) \<and>
            length vs = n \<and> length stderr = n \<and>
            (\<forall>job<length chunks. \<forall>i \<in> set (chunks ! job).
               vs ! i = mc_values (rs ! job) ! i \<and> stderr ! i = mc_stderr (rs ! job) ! i)) \<and>
         (\<forall>a b. a < b \<and> b < length chunks \<longrightarrow>
            (\<exists>ra rb tra trb rab trab.
               combinatorial_montecarlo_shapley_worker acc (chunks ! a) u n m (tapes a)
                 = Inr (ra, tra) \<and>
               combinatorial_montecarlo_shapley_worker acc (chunks ! b) u n m (tapes b)
                 = Inr (rb, trb) \<and>
               support (mc_values ra) \<subseteq> set (chunks ! a) \<and>
               support (mc_stderr ra) \<subseteq> set (chunks ! a) \<and>
               support (mc_values rb) \<subseteq> set (chunks ! b) \<and>
               support (mc_stderr rb) \<subseteq> set (chunks ! b) \<and>
               set (chunks ! a) \<inter> set (chunks ! b) = {} \<and>
               support (mc_values ra) \<inter> support (mc_values rb) = {} \<and>
               support (mc_stderr ra) \<inter> support (mc_stderr rb) = {} \<and>
               combinatorial_montecarlo_shapley_worker acc (chunks ! a @ chunks ! b) u n m
                 (join_tapes (length (chunks ! a)) (tapes a) (tapes b)) = Inr (rab, trab) \<and>
               combinatorial_reducer n [ra, rb] = Inr rab))"
  using reducer_pair [of _ n] job_result [OF assms, of acc u m]
    chunk_pair [OF assms, of _ _ acc u m]
  by (intro conjI allI impI) blast+

lemma support_examples:
  "support [1, 0, 0] = {0}" "support [0, 3, 5] = {1, 2}"
  "support [2, 0, 0] = {0}" "support [0, 4, 6] = {1, 2}"
  by (auto simp: support_def nth_Cons' less_Suc_eq numeral_3_eq_3)

theorem combinatorial_reducer_disjoint_support_witness:
  "(0::nat) < 3 \<and> (3::nat) \<le> 522 \<and> is_chunking [0..<3] [[0, 1], [2]] \<and>
   (\<forall>job. powerset_contract (two_draws_tapes job)) \<and>
   length (mc_values left_result) = 3 \<and> length (mc_stderr left_result) = 3 \<and>
   length (mc_values right_result) = 3 \<and> length (mc_stderr right_result) = 3 \<and>
   support (mc_values left_result) \<inter> support (mc_values right_result) = {} \<and>
   support (mc_stderr left_result) \<inter> support (mc_stderr right_result) = {} \<and>
   (\<exists>r. combinatorial_reducer 3 [left_result, right_result] = Inr r \<and>
      mc_values r = [1, 3, 5] \<and> mc_stderr r = [2, 4, 6]) \<and>
   (\<exists>vs stderr.
      combinatorial_montecarlo_shapley welford square_utility 3 2 [[0, 1], [2]] two_draws_tapes
        = Inr (vs, stderr) \<and>
      length vs = 3 \<and> vs ! 0 = 5 / 3 \<and> stderr ! 0 = 4 / 3 * sqrt (1 / 16 / 2)) \<and>
   (0::nat) < 1 \<and> (1::nat) < length [[0, 1], [2::nat]] \<and>
   (\<exists>ra rb tra trb rab trab.
      combinatorial_montecarlo_shapley_worker welford [0, 1] square_utility 3 2 two_draws_tape
        = Inr (ra, tra) \<and>
      combinatorial_montecarlo_shapley_worker welford [2] square_utility 3 2 two_draws_tape
        = Inr (rb, trb) \<and>
      support (mc_values ra) \<inter> support (mc_values rb) = {} \<and>
      combinatorial_montecarlo_shapley_worker welford [0, 1, 2] square_utility 3 2
        (join_tapes (length [0, 1 :: nat]) two_draws_tape two_draws_tape) = Inr (rab, trab) \<and>
      combinatorial_reducer 3 [ra, rb] = Inr rab)"
proof -
  have n: "(0::nat) < 3" and n': "(3::nat) \<le> 522" by simp_all
  have ch: "is_chunking [0..<3] [[0, 1], [2]]"
    by (simp add: is_chunking_def upt_rec)
  have c1: "powerset_contract two_draws_tape"
    by (simp add: powerset_contract_def two_draws_tape_def)
  then have ct: "\<forall>job. powerset_contract (two_draws_tapes job)"
    by (simp add: two_draws_tapes_def)
  have h: "length (mc_values left_result) = 3 \<and> length (mc_stderr left_result) = 3 \<and>
   length (mc_values right_result) = 3 \<and> length (mc_stderr right_result) = 3 \<and>
   support (mc_values left_result) \<inter> support (mc_values right_result) = {} \<and>
   support (mc_stderr left_result) \<inter> support (mc_stderr right_result) = {}"
    by (simp add: left_result_def right_result_def support_examples)
  have ab: "(0::nat) < 1 \<and> (1::nat) < length [[0, 1], [2::nat]]" by simp
  note t = combinatorial_reducer_disjoint_support [OF n n' ch ct, of welford square_utility 2]
  from t [THEN conjunct1, rule_format, OF h]
  have 1: "\<exists>r. combinatorial_reducer 3 [left_result, right_result] = Inr r \<and>
      mc_values r = [1, 3, 5] \<and> mc_stderr r = [2, 4, 6]"
    by (auto simp: left_result_def right_result_def)
  from t [THEN conjunct2, THEN conjunct1]
  obtain rs vs stderr where f:
    "\<forall>job<length [[0, 1], [2::nat]].
       (\<exists>trace. combinatorial_montecarlo_shapley_worker welford ([[0, 1], [2]] ! job)
                   square_utility 3 2 (two_draws_tapes job) = Inr (rs ! job, trace))"
    "combinatorial_montecarlo_shapley welford square_utility 3 2 [[0, 1], [2]] two_draws_tapes
       = Inr (vs, stderr)"
    "length vs = 3"
    "\<forall>job<length [[0, 1], [2::nat]]. \<forall>i \<in> set ([[0, 1], [2]] ! job).
       vs ! i = mc_values (rs ! job) ! i \<and> stderr ! i = mc_stderr (rs ! job) ! i"
    by blast
  from f(1) obtain trace where
    w: "combinatorial_montecarlo_shapley_worker welford [0, 1] square_utility 3 2
          two_draws_tape = Inr (rs ! 0, trace)"
    by (auto simp: two_draws_tapes_def)
  have d: "distinct [0, 1 :: nat]" and s: "set [0, 1] \<subseteq> {..<3 :: nat}" by auto
  from worker_result [OF d s n c1 n', of welford square_utility 2]
  obtain st where st:
    "combinatorial_montecarlo_shapley_worker welford [0, 1] square_utility 3 2 two_draws_tape
       = Inr (results_of 3 st, ws_trace st)"
    "wf_state 3 st"
    "\<forall>j<length [0, 1 :: nat]. entry st ([0, 1] ! j)
        = accumulate welford (0, 0, 0)
            (map (weighted_marginal square_utility 3 ([0, 1] ! j))
               (drawn two_draws_tape 3 2 [0, 1] j))"
    by blast
  have r0: "rs ! 0 = results_of 3 st" using w st(1) by simp
  have three: "{..<3 :: nat} - {0} = {1, 2}" by auto
  have dr: "drawn two_draws_tape 3 2 [0, 1] 0 = [{}, {1}]"
    by (simp add: drawn_def two_draws_tape_def three)
  have "entry st ([0, 1] ! 0)
          = accumulate welford (0, 0, 0)
              (map (weighted_marginal square_utility 3 ([0, 1] ! 0))
                 (drawn two_draws_tape 3 2 [0, 1] 0))"
    using st(3) [rule_format, of 0] by simp
  also have "\<dots> = (5 / 4, 1 / 16, 2)"
    unfolding dr by (simp add: weighted_marginal_def square_utility_def welford_def)
  finally have e: "entry st 0 = (5 / 4, 1 / 16, 2)" by simp
  have v0: "mc_values (rs ! 0) ! 0 = 5 / 3"
    and s0: "mc_stderr (rs ! 0) ! 0 = sqrt ((2 ^ (3 - 1) / real 3) ^ 2 * (1 / 16) / max 1 2)"
    unfolding r0 using results_entry(1,2) [OF st(2) n e] by simp_all
  have "(4 / 3 :: real) = 2 ^ (3 - 1) / real 3" by simp
  then have s0': "mc_stderr (rs ! 0) ! 0 = 4 / 3 * sqrt (1 / 16 / 2)"
    unfolding s0 using sqrt_scaled [of "2 ^ (3 - 1) / real 3" "1 / 16" 2] by simp
  have "vs ! 0 = mc_values (rs ! 0) ! 0 \<and> stderr ! 0 = mc_stderr (rs ! 0) ! 0"
    using f(4) by simp
  then have 2: "\<exists>vs stderr.
      combinatorial_montecarlo_shapley welford square_utility 3 2 [[0, 1], [2]] two_draws_tapes
        = Inr (vs, stderr) \<and>
      length vs = 3 \<and> vs ! 0 = 5 / 3 \<and> stderr ! 0 = 4 / 3 * sqrt (1 / 16 / 2)"
    using f(2,3) v0 s0' by auto
  from t [THEN conjunct2, THEN conjunct2, rule_format, OF ab]
  have 3: "\<exists>ra rb tra trb rab trab.
      combinatorial_montecarlo_shapley_worker welford [0, 1] square_utility 3 2 two_draws_tape
        = Inr (ra, tra) \<and>
      combinatorial_montecarlo_shapley_worker welford [2] square_utility 3 2 two_draws_tape
        = Inr (rb, trb) \<and>
      support (mc_values ra) \<inter> support (mc_values rb) = {} \<and>
      combinatorial_montecarlo_shapley_worker welford [0, 1, 2] square_utility 3 2
        (join_tapes (length [0, 1 :: nat]) two_draws_tape two_draws_tape) = Inr (rab, trab) \<and>
      combinatorial_reducer 3 [ra, rb] = Inr rab"
    by (simp add: two_draws_tapes_def) blast
  show ?thesis
    using n n' ch ct h 1 2 ab 3 by blast
qed

subsection \<open>Owen-sampling estimator\<close>

lemma owen_items_result:
  assumes "distinct items" and "set items \<subseteq> {..<length vs}" and "0 < c"
  shows "length (owen_items u method n c s items vs) = length vs \<and>
         (\<forall>i<length vs. owen_items u method n c s items vs ! i
            = vs ! i + (if i \<in> set items
                        then (if i \<notin> s then (u ({i} \<union> s) - u s) / c
                              else (case method of Full \<Rightarrow> 0
                                    | Halved \<Rightarrow> (u ({i} \<union> ({..<n} - s)) - u ({..<n} - s)) / c))
                        else 0))"
  using assms(1,2)
proof (induction items arbitrary: vs)
  case Nil
  then show ?case by simp
next
  case (Cons j items)
  have j: "j < length vs" and nin: "j \<notin> set items" and d: "distinct items"
    and sub: "set items \<subseteq> {..<length vs}"
    using Cons.prems by auto
  show ?case
  proof (cases "j \<in> s \<and> method = Full")
    case True
    then show ?thesis
      using Cons.IH [OF d sub] nin by auto
  next
    case False
    define m where "m = (if j \<in> s then u ({j} \<union> ({..<n} - s)) - u ({..<n} - s)
                         else u ({j} \<union> s) - u s)"
    let ?vs' = "vs[j := vs ! j + m / c]"
    have run: "owen_items u method n c s (j # items) vs = owen_items u method n c s items ?vs'"
      using False by (simp add: m_def Let_def)
    have sub': "set items \<subseteq> {..<length ?vs'}" using sub by simp
    have mH: "method = Halved" if "j \<in> s"
      using False that by (cases "method") auto
    from Cons.IH [OF d sub']
    show ?thesis
      unfolding run using j nin mH
      by (auto simp: m_def nth_list_update)
  qed
qed


lemma owen_items_contribution:
  assumes "length vs = n" and "i < n"
  shows "length (owen_items u method n (max (1 / 500) (1 - q)) s [0..<n] vs) = n"
    and "owen_items u method n (max (1 / 500) (1 - q)) s [0..<n] vs ! i
           = vs ! i + owen_contribution u method n q s i"
proof -
  have c: "(0::real) < max (1 / 500) (1 - q)" by simp
  have d: "distinct [0..<n]" and sub: "set [0..<n] \<subseteq> {..<length vs}"
    using assms(1) by auto
  note r = owen_items_result [OF d sub c, of u "method" "n" s]
  show "length (owen_items u method n (max (1 / 500) (1 - q)) s [0..<n] vs) = n"
    using r assms(1) by simp
  show "owen_items u method n (max (1 / 500) (1 - q)) s [0..<n] vs ! i
           = vs ! i + owen_contribution u method n q s i"
    using r assms by (simp add: owen_contribution_def)
qed

lemma owen_subsets_result:
  assumes "length vs = n" and "i < n"
  shows "length (owen_subsets u method n q power_set vs) = n \<and>
         owen_subsets u method n q power_set vs ! i
           = vs ! i + (\<Sum>s\<leftarrow>power_set. owen_contribution u method n q s i)"
  using assms(1)
proof (induction power_set arbitrary: vs)
  case Nil
  then show ?case by simp
next
  case (Cons s power_set)
  let ?vs' = "owen_items u method n (max (1 / 500) (1 - q)) s [0..<n] vs"
  note st = owen_items_contribution [OF Cons.prems assms(2), of u "method" "q" s]
  from Cons.IH [OF st(1)] show ?case
    using st(2) by (simp add: Let_def)
qed

lemma owen_q_values_result:
  assumes "length vs = n" and "i < n"
  shows "length (owen_q_values u method n m rp k q_values vs) = n \<and>
         owen_q_values u method n m rp k q_values vs ! i
           = vs ! i + (\<Sum>(j, q)\<leftarrow>enumerate k q_values.
                         \<Sum>s\<leftarrow>rp j {..<n} m q. owen_contribution u method n q s i)"
  using assms(1)
proof (induction q_values arbitrary: k vs)
  case Nil
  then show ?case by simp
next
  case (Cons q q_values)
  let ?vs' = "owen_subsets u method n q (rp k {..<n} m q) vs"
  from owen_subsets_result [OF Cons.prems assms(2), of u "method" "q" "rp k {..<n} m q"]
  have st: "length ?vs' = n"
    "?vs' ! i = vs ! i + (\<Sum>s\<leftarrow>rp k {..<n} m q. owen_contribution u method n q s i)"
    by simp_all
  from Cons.IH [OF st(1), of "Suc k"] show ?case
    using st(2) by (simp add: Let_def)
qed

text \<open>
  C5. In the worker \<^verbatim>\<open>_owen_sampling_shapley\<close>, a sampled subset \<open>s\<close> drawn with
  inclusion probability \<open>q\<close> adds to the accumulated value of every item \<open>i\<close> its
  contribution: in mode Full, \<open>(u({i} \<union> s) - u(s)) / max(1/500, 1-q)\<close> for \<open>i \<notin> s\<close> and
  nothing for \<open>i \<in> s\<close>; in mode Halved, the same for \<open>i \<notin> s\<close> and the marginal on the
  complement, \<open>(u({i} \<union> s\<^sup>c) - u(s\<^sup>c)) / max(1/500, 1-q)\<close>, for \<open>i \<in> s\<close>. The value the
  worker returns for \<open>i\<close> is the sum of these contributions over all \<open>q\<close> and all
  subsets drawn.
\<close>

theorem owen_contributions:
  assumes "i < n"
  shows "(length vs = n \<longrightarrow>
            owen_items u method n (max (1 / 500) (1 - q)) s [0..<n] vs ! i
              = vs ! i + owen_contribution u method n q s i) \<and>
         owen_contribution u Full n q s i
           = (if i \<notin> s then (u ({i} \<union> s) - u s) / max (1 / 500) (1 - q) else 0) \<and>
         owen_contribution u Halved n q s i
           = (if i \<notin> s then (u ({i} \<union> s) - u s) / max (1 / 500) (1 - q)
              else (u ({i} \<union> ({..<n} - s)) - u ({..<n} - s)) / max (1 / 500) (1 - q)) \<and>
         mc_values (owen_sampling_shapley_worker q_values u n method m rp) ! i
           = (\<Sum>(k, q)\<leftarrow>enumerate 0 q_values.
                \<Sum>s\<leftarrow>rp k {..<n} m q. owen_contribution u method n q s i)"
proof -
  have "mc_values (owen_sampling_shapley_worker q_values u n method m rp) ! i
           = (\<Sum>(k, q)\<leftarrow>enumerate 0 q_values.
                \<Sum>s\<leftarrow>rp k {..<n} m q. owen_contribution u method n q s i)"
    using owen_q_values_result [of "replicate n 0" "n" i u "method" "m" rp 0 q_values] assms
    by (simp add: owen_sampling_shapley_worker_def)
  then show ?thesis
    using owen_items_contribution(2) [OF _ assms, of vs u "method" "q" s]
    by (simp add: owen_contribution_def)
qed


theorem owen_contributions_witness:
  "(0::nat) < 2 \<and> length [0, 0 :: real] = 2 \<and>
   owen_items size_utility Halved 2 (max (1 / 500) (1 - 1 / 2)) {0} [0..<2] [0, 0] ! 0 = 2 \<and>
   mc_values (owen_sampling_shapley_worker [1 / 2] size_utility 2 Full 1 whole_set_tape) ! 0
     = 0"
proof -
  have i: "(0::nat) < 2" by simp
  have two: "{..<2 :: nat} - {0} = {1}" by auto
  have a: "owen_contribution size_utility Halved 2 (1 / 2) {0} 0 = 2"
    by (simp add: owen_contribution_def size_utility_def two)
  have b: "owen_contribution size_utility Full 2 (1 / 2) {..<2} 0 = 0"
    by (simp add: owen_contribution_def)
  note t = owen_contributions [OF i, of "[0, 0]" size_utility Halved "1 / 2" "{0}"]
  note t' = owen_contributions [OF i, of "[0, 0]" size_utility Full "1 / 2" "{0}" "[1 / 2]" 1 whole_set_tape]
  have 1: "owen_items size_utility Halved 2 (max (1 / 500) (1 - 1 / 2)) {0} [0..<2] [0, 0] ! 0
             = 2"
    using t [THEN conjunct1] a by simp
  have 2: "mc_values (owen_sampling_shapley_worker [1 / 2] size_utility 2 Full 1
             whole_set_tape) ! 0 = 0"
    using t' [THEN conjunct2, THEN conjunct2, THEN conjunct2] b
    by (simp add: whole_set_tape_def)
  show ?thesis using 1 2 by simp
qed

lemma owen_reducer_loop_result:
  assumes "\<forall>r \<in> set rs. length (mc_values r) = length vs \<and> mc_n_samples r \<noteq> None"
  shows "owen_reducer_loop (vs, k) rs
           = Inr (map (\<lambda>i. vs ! i + (\<Sum>r\<leftarrow>rs. mc_values r ! i)) [0..<length vs],
                  k + (\<Sum>r\<leftarrow>rs. the (mc_n_samples r)))"
  using assms
proof (induction rs arbitrary: vs k)
  case Nil
  then show ?case by (simp add: map_nth)
next
  case (Cons r rs)
  let ?vs' = "map2 (+) vs (mc_values r)"
  have l: "length (mc_values r) = length vs" and l': "length ?vs' = length vs"
    using Cons.prems by simp_all
  obtain samples where sm: "mc_n_samples r = Some samples"
    using Cons.prems by auto
  have run: "owen_reducer_loop (vs, k) (r # rs) = owen_reducer_loop (?vs', k + samples) rs"
    using l sm by (simp add: iadd_same)
  have "\<forall>r \<in> set rs. length (mc_values r) = length ?vs' \<and> mc_n_samples r \<noteq> None"
    using Cons.prems l' by simp
  from Cons.IH [OF this, of "k + samples"]
  have "owen_reducer_loop (?vs', k + samples) rs
          = Inr (map (\<lambda>i. ?vs' ! i + (\<Sum>r\<leftarrow>rs. mc_values r ! i)) [0..<length vs],
                 k + samples + (\<Sum>r\<leftarrow>rs. the (mc_n_samples r)))"
    using l' by simp
  moreover have "map (\<lambda>i. ?vs' ! i + (\<Sum>r\<leftarrow>rs. mc_values r ! i)) [0..<length vs]
                   = map (\<lambda>i. vs ! i + (\<Sum>r\<leftarrow>r # rs. mc_values r ! i)) [0..<length vs]"
    using l by (intro map_cong) auto
  ultimately show ?case
    unfolding run using sm by simp
qed

lemma length_owen_items: "length (owen_items u method n c s items vs) = length vs"
  by (induction items arbitrary: vs) (auto simp: Let_def)

lemma length_owen_subsets: "length (owen_subsets u method n q power_set vs) = length vs"
  by (induction power_set arbitrary: vs) (simp_all add: Let_def length_owen_items)

lemma length_owen_q_values:
  "length (owen_q_values u method n m rp k q_values vs) = length vs"
  by (induction q_values arbitrary: k vs) (simp_all add: Let_def length_owen_subsets)

lemma owen_reducer_sum:
  assumes "\<forall>r \<in> set results. length (mc_values r) = n \<and> mc_n_samples r \<noteq> None"
  shows "owen_reducer n results
           = Inr \<lparr>mc_values =
                    map (\<lambda>i. np_true_divide (Finite (\<Sum>r\<leftarrow>results. mc_values r ! i))
                                (real_of_int (\<Sum>r\<leftarrow>results. the (mc_n_samples r))))
                      [0..<n],
                  mc_stderr = replicate n (Finite 0),
                  mc_n_samples = None\<rparr>"
proof -
  have "\<forall>r \<in> set results. length (mc_values r) = length (replicate n (0::real)) \<and>
          mc_n_samples r \<noteq> None"
    using assms by simp
  from owen_reducer_loop_result [OF this, of 0]
  have "owen_reducer_loop (replicate n 0, 0) results
          = Inr (map (\<lambda>i. \<Sum>r\<leftarrow>results. mc_values r ! i) [0..<n],
                 \<Sum>r\<leftarrow>results. the (mc_n_samples r))"
    by simp
  then show ?thesis
    by (simp add: owen_reducer_def comp_def)
qed

text \<open>
  C6. The reducer of \<^verbatim>\<open>owen_sampling_shapley\<close> sums the value vectors of the workers
  and, separately, their sample counts, and divides the summed vector once by the total
  count; every worker reports \<open>len(q_values) * max_iterations\<close> samples.
\<close>

theorem owen_reducer_divides_once:
  assumes "\<forall>r \<in> set results. length (mc_values r) = n \<and> mc_n_samples r \<noteq> None"
  shows "owen_reducer n results
           = Inr \<lparr>mc_values =
                    map (\<lambda>i. np_true_divide (Finite (\<Sum>r\<leftarrow>results. mc_values r ! i))
                                (real_of_int (\<Sum>r\<leftarrow>results. the (mc_n_samples r))))
                      [0..<n],
                  mc_stderr = replicate n (Finite 0),
                  mc_n_samples = None\<rparr> \<and>
         mc_n_samples (owen_sampling_shapley_worker q_values u n method max_iterations rp)
           = Some (int (length q_values) * max_iterations) \<and>
         length (mc_values (owen_sampling_shapley_worker q_values u n method max_iterations rp))
           = n"
  using owen_reducer_sum [OF assms]
  by (simp add: owen_sampling_shapley_worker_def length_owen_q_values)

theorem owen_reducer_divides_once_witness:
  "length (mc_values owen_result_a) = 2 \<and> mc_n_samples owen_result_a = Some 2 \<and>
   length (mc_values owen_result_b) = 2 \<and> mc_n_samples owen_result_b = Some 6 \<and>
   owen_reducer 2 [owen_result_a, owen_result_b]
     = Inr \<lparr>mc_values = [Finite (1 / 2), Finite (3 / 4)],
            mc_stderr = [Finite 0, Finite 0], mc_n_samples = None\<rparr>"
proof -
  have h: "\<forall>r \<in> set [owen_result_a, owen_result_b]. length (mc_values r) = 2 \<and>
      mc_n_samples r \<noteq> None"
    by (simp add: owen_result_a_def owen_result_b_def)
  have u: "[0..<2] = [0, Suc 0]" by (simp add: upt_rec)
  from owen_reducer_divides_once [OF h, THEN conjunct1] show ?thesis
    by (simp add: owen_result_a_def owen_result_b_def u numeral_2_eq_2)
qed

lemma map_reduce_job_total:
  "map_reduce_job (\<lambda>job x. Inr (f job x)) reduce_func inputs
     = reduce_func (map (\<lambda>job. f job (inputs ! job)) [0..<length inputs])"
  using map_reduce_job_Inr [of inputs "\<lambda>job x. Inr (f job x)" "\<lambda>job. f job (inputs ! job)"
      reduce_func]
  by simp

text \<open>
  C9. The Owen estimator reports a standard error of zero for every item: the worker
  returns zeros, the reducer returns zeros whatever the results it is given, and the
  mapping of errors returned by \<^verbatim>\<open>owen_sampling_shapley\<close> gives 0 to each of the \<open>n\<close>
  items, for every utility, budget, mode, chunking and outcome of the sampler (for
  \<open>max_q \<ge> 0\<close>; a negative \<open>max_q\<close> is refused by \<^verbatim>\<open>np.linspace\<close>).
\<close>

theorem owen_stderr_zero:
  assumes "0 \<le> max_q"
  shows "mc_stderr (owen_sampling_shapley_worker q_values u n method max_iterations tape)
           = replicate n 0 \<and>
         (\<forall>results r. owen_reducer n results = Inr r \<longrightarrow> mc_stderr r = replicate n (Finite 0)) \<and>
         (\<exists>vs. owen_sampling_shapley u n data_names max_iterations max_q method chunkify rp
                 = Inr (vs, map (\<lambda>i. (data_names i, Finite 0)) [0..<n]))"
proof (intro conjI allI impI)
  show "mc_stderr (owen_sampling_shapley_worker q_values u n method max_iterations tape)
           = replicate n 0"
    by (simp add: owen_sampling_shapley_worker_def)
next
  fix results r
  assume a: "owen_reducer n results = Inr r"
  have len: "owen_reducer_loop (vs, k) rs = Inr (vs', k') \<Longrightarrow> length vs' = length vs"
    for vs k rs vs' k'
    by (induction rs arbitrary: vs k)
       (auto simp: np_iadd_def split: sum.splits option.splits if_splits)
  from a obtain vs' k' where "owen_reducer_loop (replicate n 0, 0) results = Inr (vs', k')"
    by (auto simp: owen_reducer_def split: sum.splits)
  with a len [OF this] show "mc_stderr r = replicate n (Finite 0)"
    by (auto simp: owen_reducer_def)
next
  obtain q_steps where q: "np_linspace (q_stop method) max_q = Inr q_steps"
    using assms by (cases "max_q = 1") (auto simp: np_linspace_def)
  let ?chunks = "chunkify q_steps"
  let ?rs = "map (\<lambda>job. owen_sampling_shapley_worker (?chunks ! job) u n method
                            max_iterations (rp job)) [0..<length ?chunks]"
  have "\<forall>r \<in> set ?rs. length (mc_values r) = n \<and> mc_n_samples r \<noteq> None"
    by (auto simp: owen_sampling_shapley_worker_def length_owen_q_values)
  from owen_reducer_sum [OF this]
  obtain r where r: "owen_reducer n ?rs = Inr r" "mc_stderr r = replicate n (Finite 0)"
    by simp
  have "map (\<lambda>i. (data_names i, replicate n (Finite 0) ! i)) [0..<n]
          = map (\<lambda>i. (data_names i, Finite 0)) [0..<n]"
    by (intro map_cong) auto
  then have "owen_sampling_shapley u n data_names max_iterations max_q method chunkify rp
          = Inr (mc_values r, map (\<lambda>i. (data_names i, Finite 0)) [0..<n])"
    using q r by (simp add: owen_sampling_shapley_def map_reduce_job_total)
  then show "\<exists>vs. owen_sampling_shapley u n data_names max_iterations max_q method chunkify rp
                 = Inr (vs, map (\<lambda>i. (data_names i, Finite 0)) [0..<n])"
    by blast
qed

theorem owen_stderr_zero_witness:
  "(0::int) \<le> 2 \<and>
   owen_reducer 2 [owen_result_a, owen_result_b]
     = Inr \<lparr>mc_values = [Finite (1 / 2), Finite (3 / 4)],
            mc_stderr = [Finite 0, Finite 0], mc_n_samples = None\<rparr> \<and>
   mc_stderr \<lparr>mc_values = [Finite (1 / 2), Finite (3 / 4)],
              mc_stderr = [Finite 0, Finite 0], mc_n_samples = None\<rparr>
     = replicate 2 (Finite 0) \<and>
   (\<exists>vs. owen_sampling_shapley size_utility 2 item_name 3 2 Halved singletons whole_set_tapes
           = Inr (vs, [(''a'', Finite 0), (''b'', Finite 0)]))"
proof -
  have q: "(0::int) \<le> 2" by simp
  have u: "[0..<2] = [0, Suc 0]" by (simp add: upt_rec)
  have red: "owen_reducer 2 [owen_result_a, owen_result_b]
     = Inr \<lparr>mc_values = [Finite (1 / 2), Finite (3 / 4)],
            mc_stderr = [Finite 0, Finite 0], mc_n_samples = None\<rparr>"
    by (simp add: owen_reducer_def owen_result_a_def owen_result_b_def np_iadd_def
        numeral_2_eq_2)
  note t = owen_stderr_zero [OF q, of "[]" size_utility 2 Halved 3 whole_set_tape item_name singletons
      whole_set_tapes]
  from t [THEN conjunct2, THEN conjunct1, rule_format, OF red]
  have 1: "mc_stderr \<lparr>mc_values = [Finite (1 / 2), Finite (3 / 4)],
              mc_stderr = [Finite 0, Finite 0], mc_n_samples = None\<rparr>
     = replicate 2 (Finite 0)" .
  from t [THEN conjunct2, THEN conjunct2]
  have 2: "\<exists>vs. owen_sampling_shapley size_utility 2 item_name 3 2 Halved singletons
                   whole_set_tapes
           = Inr (vs, [(''a'', Finite 0), (''b'', Finite 0)])"
    by (simp add: u item_name_def)
  show ?thesis using q red 1 2 by blast
qed

subsection \<open>Truncated estimator\<close>

lemma polling_loop_Some:
  assumes "polling_loop c polls k = Some r"
  shows "\<exists>snap. polls r = Some snap \<and> check_done c snap"
  by (rule polling_loop.raw_induct [OF _ assms]) (auto split: option.splits if_splits)

lemma no_thresholds_never_done:
  "\<not> check_done \<lparr>coord_value_tolerance = None, coord_max_iterations = None\<rparr> snap"
  by (simp add: check_done_def)

lemma unbounded_polling_diverges:
  "polling_loop \<lparr>coord_value_tolerance = None, coord_max_iterations = None\<rparr> polls k = None"
proof (cases "polling_loop \<lparr>coord_value_tolerance = None, coord_max_iterations = None\<rparr> polls k")
  case None
  then show ?thesis .
next
  case (Some r)
  from polling_loop_Some [OF this] show ?thesis
    by (simp add: no_thresholds_never_done)
qed

text \<open>With a criterion that fires at some poll, the loop ends and the call returns.\<close>

lemma polling_loop_returns:
  assumes "polls (k + d) = Some snap" and "check_done c snap"
  shows "\<exists>r. polling_loop c polls k = Some r"
  using assms(1)
proof (induction d arbitrary: k)
  case 0
  then show ?case using assms(2) by (subst polling_loop.simps) simp
next
  case (Suc d)
  then have "\<exists>r. polling_loop c polls (Suc k) = Some r" by simp
  then show ?case
    by (subst polling_loop.simps) (auto split: option.splits)
qed

lemma truncated_returns:
  assumes "polls d = Some snap"
    and "check_done (get_shapley_coordinator value_tolerance max_iterations) snap"
  shows "\<exists>r. truncated_montecarlo_shapley value_tolerance max_iterations polls get_results
               = Some r"
  using polling_loop_returns [of polls 0 d snap, OF _ assms(2)] assms(1)
  by (auto simp: truncated_montecarlo_shapley_def Let_def)

text \<open>
  C7, as stated, fails: \<^verbatim>\<open>truncated_montecarlo_shapley\<close> does not look at its
  thresholds. Called with both \<open>None\<close> in a run where the workers report at every poll,
  it is not rejected: it polls forever and does not return.
\<close>

theorem truncated_unbounded_counterexample:
  "truncated_montecarlo_shapley None None busy_polls no_results = None"
  by (simp add: truncated_montecarlo_shapley_def get_shapley_coordinator_def
      unbounded_polling_diverges)

text \<open>
  C7, amended. A call of \<^verbatim>\<open>truncated_montecarlo_shapley\<close> with both thresholds \<open>None\<close>
  is a configuration error of the caller that the function does not detect: it has no
  check of its thresholds, creates the coordinator and the workers and enters the polling
  loop; neither stopping criterion can fire, so the loop never ends and the call does not
  return, whatever the workers and the clock do.
\<close>

theorem truncated_unbounded_never_returns:
  "truncated_montecarlo_shapley None None polls get_results = None"
  by (simp add: truncated_montecarlo_shapley_def get_shapley_coordinator_def
      unbounded_polling_diverges)

subsection \<open>The single-item dataset\<close>

text \<open>For one item every row of the permutation estimator is \<open>[u({0})]\<close>, the first
  score minus the initial \<^verbatim>\<open>prev_score = 0.0\<close>: the utility of the empty set is never
  asked for.\<close>

lemma permutation_single_item_rows:
  assumes "\<forall>k. is_index_permutation 1 (rp k)" and "0 \<le> m"
  shows "permutation_montecarlo_marginals u 1 m rp = Inr (replicate (nat m) [u {0}])"
  using assms by (intro marginals_single_worker) simp_all

text \<open>
  C1. For a dataset of one item the estimate should be \<open>u({0}) - u({})\<close>, the marginal
  \<open>U(S \<union> {i}) - U(S)\<close> of the module's definition at \<open>S = {}\<close>. The permutation estimator
  computes \<open>u({0}) - 0.0\<close> instead. At the utility that is 1 on every set, the empty one
  included, its row is \<open>[1]\<close> and the value it returns is 1, where
  \<open>u({0}) - u({})\<close> is 0; the combinatorial worker, which calls the utility on the empty
  subset, returns 0 for the same utility.
\<close>

theorem permutation_single_item_defect:
  "permutation_montecarlo_marginals constant_utility 1 1 (single_item_tape 0) = Inr [[1]] \<and>
   permutation_montecarlo_shapley constant_utility 1 1 1 single_item_tape
     = Inr ([Finite 1], [Finite 0]) \<and>
   constant_utility {0} - constant_utility {} = 0 \<and>
   (\<exists>r trace.
      combinatorial_montecarlo_shapley_worker welford [0] constant_utility 1 1 whole_set_tape
        = Inr (r, trace) \<and>
      mc_values r ! 0 = 0)"
proof -
  have rows: "permutation_montecarlo_marginals constant_utility 1 1 (single_item_tape 0)
                = Inr [[1]]"
    by (simp add: permutation_montecarlo_marginals_def marginals_row_def
        single_item_tape_def constant_utility_def)
  have "permutation_full_results constant_utility 1 1 1 single_item_tape = Inr [[1]]"
    using rows
    by (simp add: permutation_full_results_def map_reduce_job_def np_concatenate_def
        single_item_tape_def)
  then have est: "permutation_montecarlo_shapley constant_utility 1 1 1 single_item_tape
                    = Inr ([Finite 1], [Finite 0])"
    by (simp add: permutation_montecarlo_shapley_def permutation_estimate_def column_def
        np_mean_def np_std_def mean_def)
  have d: "distinct [0 :: nat]" and s: "set [0] \<subseteq> {..<1 :: nat}" by auto
  have c: "powerset_contract whole_set_tape"
    by (simp add: powerset_contract_def whole_set_tape_def)
  have n: "(0::nat) < 1" and n': "(1::nat) \<le> 522" by simp_all
  from worker_result [OF d s n c n', of welford constant_utility 1]
  obtain st where st:
    "combinatorial_montecarlo_shapley_worker welford [0] constant_utility 1 1 whole_set_tape
       = Inr (results_of 1 st, ws_trace st)"
    "wf_state 1 st"
    "\<forall>j<length [0 :: nat]. entry st ([0] ! j)
        = accumulate welford (0, 0, 0)
            (map (weighted_marginal constant_utility 1 ([0] ! j))
               (drawn whole_set_tape 1 1 [0] j))"
    by blast
  have one: "{..<1 :: nat} - {0} = {}" by auto
  have dr: "drawn whole_set_tape 1 1 [0] 0 = [{}]"
    unfolding drawn_def whole_set_tape_def by (simp only: nth_Cons_0 one)
  have "entry st ([0] ! 0)
          = accumulate welford (0, 0, 0)
              (map (weighted_marginal constant_utility 1 ([0] ! 0))
                 (drawn whole_set_tape 1 1 [0] 0))"
    using st(3) [rule_format, of 0] by simp
  also have "\<dots> = (0, 0, 1)"
    unfolding dr by (simp add: weighted_marginal_def constant_utility_def welford_def)
  finally have e: "entry st 0 = (0, 0, 1)" by simp
  have "mc_values (results_of 1 st) ! 0 = 0"
    using results_entry(1) [OF st(2) n e] by simp
  then show ?thesis
    using rows est st(1) by (simp add: constant_utility_def)
qed

end
